theory Spec2Isabelle
  imports Main "HOL-Library.Word" "HOL-Library.Multiset"
begin

section \<open>JavaScript values and exceptions\<close>

text \<open>
  The step wrappers handle values of type \<open>unknown\<close>: step inputs, step results and the
  parsed JSON body of a log response. They are modelled as JSON-shaped trees. Numbers are
  integers here (no claim depends on fractions or NaN); an object is an association list
  read with \<open>map_of\<close>.
\<close>

datatype jsval =
    JUndefined
  | JNull
  | JBool bool
  | JNum int
  | JStr string
  | JArr "jsval list"
  | JObj "(string \<times> jsval) list"

text \<open>
  A thrown value is either an \<open>Error\<close> instance with its message, or any other value
  (\<open>error instanceof Error ? error.message : "Unknown error"\<close> tells them apart).
\<close>

datatype exn = ErrorObj string | NonError jsval

text \<open>Truthiness, as \<open>!x\<close>, \<open>x && y\<close> and \<open>x || y\<close> read it.\<close>

fun truthy :: "jsval \<Rightarrow> bool" where
  "truthy JUndefined = False"
| "truthy JNull = False"
| "truthy (JBool b) = b"
| "truthy (JNum n) = (n \<noteq> 0)"
| "truthy (JStr s) = (s \<noteq> [])"
| "truthy (JArr xs) = True"
| "truthy (JObj kvs) = True"

text \<open>\<open>a || b\<close>\<close>

definition js_or :: "jsval \<Rightarrow> jsval \<Rightarrow> jsval" where
  "js_or a b = (if truthy a then a else b)"

text \<open>\<open>typeof x === "object"\<close> (true of \<open>null\<close> as well, as in JavaScript).\<close>

fun typeof_object :: "jsval \<Rightarrow> bool" where
  "typeof_object JNull = True"
| "typeof_object (JArr xs) = True"
| "typeof_object (JObj kvs) = True"
| "typeof_object v = False"

text \<open>
  \<open>k in x\<close> for a property name \<open>k\<close> that is no built-in (here \<open>success\<close>): an object
  has it when the key is present; an array has no such property.
\<close>

fun js_in :: "string \<Rightarrow> jsval \<Rightarrow> bool" where
  "js_in k (JObj kvs) = (k \<in> fst ` set kvs)"
| "js_in k v = False"

text \<open>
  \<open>x.k\<close> for a property name \<open>k\<close> that is no built-in (\<open>logId\<close>, \<open>startTime\<close>,
  \<open>success\<close>, \<open>error\<close>): reading a property of \<open>undefined\<close> or \<open>null\<close> throws a
  TypeError, an absent property reads \<open>undefined\<close>.
\<close>

fun js_get :: "jsval \<Rightarrow> string \<Rightarrow> exn + jsval" where
  "js_get JUndefined k = Inl (ErrorObj ''Cannot read properties of undefined'')"
| "js_get JNull k = Inl (ErrorObj ''Cannot read properties of null'')"
| "js_get (JObj kvs) k = Inr (case map_of kvs k of None \<Rightarrow> JUndefined | Some v \<Rightarrow> v)"
| "js_get v k = Inr JUndefined"

section \<open>Step logging (withStepLogging of lib/steps/step-handler, and stepHandler)\<close>

record StepContext =
  executionId :: "string option"
  nodeId :: string
  nodeName :: string
  nodeType :: string

text \<open>
  \<open>LogInfo\<close>: both fields come from the parsed response body (\<open>result.logId || ""\<close>),
  so at run time they hold whatever truthy value the server sent.
\<close>

record LogInfo =
  logId :: jsval
  startTime :: jsval

datatype log_status = StatusSuccess | StatusError

text \<open>The \<open>data\<close> object of a POST to \<open>/api/workflow-log\<close>, by \<open>action\<close>.\<close>

record start_data =
  s_executionId :: string
  s_nodeId :: string
  s_nodeName :: string
  s_nodeType :: string
  s_input :: jsval

record complete_data =
  c_logId :: jsval
  c_startTime :: jsval
  c_status :: log_status
  c_output :: jsval
  c_error :: jsval

datatype log_request = StartAction start_data | CompleteAction complete_data

text \<open>
  What \<open>await fetch(...)\<close> does: it rejects, or it resolves to a response with its
  \<open>ok\<close> flag and the outcome of \<open>response.json()\<close> (which can throw as well).
\<close>

datatype fetch_outcome = FetchRejects exn | FetchResponse bool "exn + jsval"

text \<open>
  The surroundings of a step: the imported \<open>redactSensitiveData\<close> (its module is not part
  of these sources, so it is a parameter, and it is allowed to throw), the network behind
  \<open>fetch\<close> (its answer may depend on everything sent before), and the clock read by
  \<open>Date.now()\<close>.
\<close>

record env =
  redactSensitiveData :: "jsval \<Rightarrow> exn + jsval"
  fetch :: "log_request list \<Rightarrow> log_request \<Rightarrow> fetch_outcome"
  date_now :: int

text \<open>
  An effectful computation takes the requests sent so far and returns its outcome
  (\<open>Inl\<close>: it threw) with the requests sent by then. A request counts as sent once
  \<open>fetch\<close> was called with it, also when \<open>fetch\<close> rejects.
\<close>

type_synonym 'a eff = "log_request list \<Rightarrow> (exn + 'a) \<times> log_request list"

definition fallback_info :: "env \<Rightarrow> LogInfo" where
  "fallback_info E = \<lparr>logId = JStr [], startTime = JNum (date_now E)\<rparr>"

text \<open>The body of the \<open>try\<close> block of \<open>logStepStart\<close>.\<close>

definition logStepStart_body ::
  "env \<Rightarrow> string \<Rightarrow> string \<Rightarrow> string \<Rightarrow> string \<Rightarrow> jsval \<Rightarrow> LogInfo eff" where
  "logStepStart_body E eid nid nname ntype inp tr =
     (case redactSensitiveData E inp of
        Inl e \<Rightarrow> (Inl e, tr)
      | Inr redactedInput \<Rightarrow>
          (let req = StartAction \<lparr>s_executionId = eid, s_nodeId = nid, s_nodeName = nname,
                                  s_nodeType = ntype, s_input = redactedInput\<rparr>;
               tr' = tr @ [req]
           in case fetch E tr req of
                FetchRejects e \<Rightarrow> (Inl e, tr')
              | FetchResponse ok body \<Rightarrow>
                  if ok then
                    (case body of
                       Inl e \<Rightarrow> (Inl e, tr')
                     | Inr result \<Rightarrow>
                         (case js_get result ''logId'' of
                            Inl e \<Rightarrow> (Inl e, tr')
                          | Inr lid \<Rightarrow>
                              (case js_get result ''startTime'' of
                                 Inl e \<Rightarrow> (Inl e, tr')
                               | Inr st \<Rightarrow>
                                   (Inr \<lparr>logId = js_or lid (JStr []),
                                         startTime = js_or st (JNum (date_now E))\<rparr>, tr'))))
                  else (Inr (fallback_info E), tr')))"

text \<open>
  \<open>logStepStart\<close> of the module with \<open>withStepLogging\<close>: the context may be
  \<open>undefined\<close> (\<open>context?.executionId\<close>); a missing or empty execution id returns the
  fallback without any request; the \<open>catch\<close> turns every exception of the body into the
  fallback.
\<close>

definition logStepStart :: "env \<Rightarrow> StepContext option \<Rightarrow> jsval \<Rightarrow> LogInfo eff" where
  "logStepStart E ctx inp tr =
     (case ctx of
        None \<Rightarrow> (Inr (fallback_info E), tr)
      | Some c \<Rightarrow>
          (case executionId c of
             None \<Rightarrow> (Inr (fallback_info E), tr)
           | Some eid \<Rightarrow>
               if eid = [] then (Inr (fallback_info E), tr)
               else
                 (case logStepStart_body E eid (nodeId c) (nodeName c) (nodeType c) inp tr of
                    (Inr info, tr') \<Rightarrow> (Inr info, tr')
                  | (Inl e, tr') \<Rightarrow> (Inr (fallback_info E), tr'))))"

text \<open>The body of the \<open>try\<close> block of \<open>logStepComplete\<close>; the response is not looked at.\<close>

definition logStepComplete_body ::
  "env \<Rightarrow> LogInfo \<Rightarrow> log_status \<Rightarrow> jsval \<Rightarrow> jsval \<Rightarrow> unit eff" where
  "logStepComplete_body E info st out err tr =
     (case redactSensitiveData E out of
        Inl e \<Rightarrow> (Inl e, tr)
      | Inr redactedOutput \<Rightarrow>
          (let req = CompleteAction \<lparr>c_logId = logId info, c_startTime = startTime info,
                                     c_status = st, c_output = redactedOutput, c_error = err\<rparr>;
               tr' = tr @ [req]
           in case fetch E tr req of
                FetchRejects e \<Rightarrow> (Inl e, tr')
              | FetchResponse ok body \<Rightarrow> (Inr (), tr')))"

text \<open>
  \<open>logStepComplete\<close>: nothing is sent for a falsy log id; the \<open>catch\<close> swallows every
  exception of the body.
\<close>

definition logStepComplete ::
  "env \<Rightarrow> LogInfo \<Rightarrow> log_status \<Rightarrow> jsval \<Rightarrow> jsval \<Rightarrow> unit eff" where
  "logStepComplete E info st out err tr =
     (if \<not> truthy (logId info) then (Inr (), tr)
      else
        (case logStepComplete_body E info st out err tr of
           (Inr u, tr') \<Rightarrow> (Inr (), tr')
         | (Inl e, tr') \<Rightarrow> (Inr (), tr')))"

text \<open>
  \<open>isErrorResult\<close>: \<open>result && typeof result === "object" && "success" in result &&
  result.success === false\<close>.
\<close>

definition isErrorResult :: "jsval \<Rightarrow> bool" where
  "isErrorResult result =
     (truthy result \<and> typeof_object result \<and> js_in ''success'' result \<and>
      js_get result ''success'' = Inr (JBool False))"

text \<open>\<open>errorResult.error || "Step execution failed"\<close>, evaluated only for an error result.\<close>

definition error_of_result :: "jsval \<Rightarrow> exn + jsval" where
  "error_of_result result =
     (case js_get result ''error'' of
        Inl e \<Rightarrow> Inl e
      | Inr v \<Rightarrow> Inr (js_or v (JStr ''Step execution failed'')))"

text \<open>\<open>error instanceof Error ? error.message : "Unknown error"\<close>\<close>

fun errorMessage :: "exn \<Rightarrow> string" where
  "errorMessage (ErrorObj m) = m"
| "errorMessage (NonError v) = ''Unknown error''"

text \<open>
  The \<open>try\<close> block of \<open>withStepLogging\<close>. The step logic is given by the outcome of
  running it: the value it resolves to, or what it throws.
\<close>

definition withStepLogging_body :: "env \<Rightarrow> LogInfo \<Rightarrow> exn + jsval \<Rightarrow> jsval eff" where
  "withStepLogging_body E info stepLogic tr =
     (case stepLogic of
        Inl e \<Rightarrow> (Inl e, tr)
      | Inr result \<Rightarrow>
          if isErrorResult result then
            (case error_of_result result of
               Inl e \<Rightarrow> (Inl e, tr)
             | Inr err \<Rightarrow>
                 (case logStepComplete E info StatusError result err tr of
                    (Inl e, tr') \<Rightarrow> (Inl e, tr')
                  | (Inr u, tr') \<Rightarrow> (Inr result, tr')))
          else
            (case logStepComplete E info StatusSuccess result JUndefined tr of
               (Inl e, tr') \<Rightarrow> (Inl e, tr')
             | (Inr u, tr') \<Rightarrow> (Inr result, tr')))"

text \<open>The \<open>catch\<close> block of both wrappers: log the error, then throw it again.\<close>

definition log_and_rethrow :: "env \<Rightarrow> LogInfo \<Rightarrow> exn \<Rightarrow> jsval eff" where
  "log_and_rethrow E info error tr =
     (case logStepComplete E info StatusError JUndefined (JStr (errorMessage error)) tr of
        (Inl e, tr') \<Rightarrow> (Inl e, tr')
      | (Inr u, tr') \<Rightarrow> (Inl error, tr'))"

definition withStepLogging :: "env \<Rightarrow> StepContext option \<Rightarrow> jsval \<Rightarrow> exn + jsval \<Rightarrow> jsval eff" where
  "withStepLogging E ctx inp stepLogic tr =
     (case logStepStart E ctx inp tr of
        (Inl e, tr1) \<Rightarrow> (Inl e, tr1)
      | (Inr info, tr1) \<Rightarrow>
          (case withStepLogging_body E info stepLogic tr1 of
             (Inr result, tr2) \<Rightarrow> (Inr result, tr2)
           | (Inl error, tr2) \<Rightarrow> log_and_rethrow E info error tr2))"

text \<open>
  The wrapper \<open>stepHandler\<close> lives in a module of its own, with private copies of the two
  logging functions (the same code, the completion arguments passed as one object); its
  context is not optional, and its step function is applied to the input.
\<close>

definition logStepStart_sh :: "env \<Rightarrow> StepContext \<Rightarrow> jsval \<Rightarrow> LogInfo eff" where
  "logStepStart_sh E c inp tr =
     (case executionId c of
        None \<Rightarrow> (Inr (fallback_info E), tr)
      | Some eid \<Rightarrow>
          if eid = [] then (Inr (fallback_info E), tr)
          else
            (case logStepStart_body E eid (nodeId c) (nodeName c) (nodeType c) inp tr of
               (Inr info, tr') \<Rightarrow> (Inr info, tr')
             | (Inl e, tr') \<Rightarrow> (Inr (fallback_info E), tr')))"

definition stepHandler_body :: "env \<Rightarrow> LogInfo \<Rightarrow> (jsval \<Rightarrow> exn + jsval) \<Rightarrow> jsval \<Rightarrow> jsval eff" where
  "stepHandler_body E info stepFn inp tr =
     (case stepFn inp of
        Inl e \<Rightarrow> (Inl e, tr)
      | Inr result \<Rightarrow>
          if isErrorResult result then
            (case error_of_result result of
               Inl e \<Rightarrow> (Inl e, tr)
             | Inr err \<Rightarrow>
                 (case logStepComplete E info StatusError result err tr of
                    (Inl e, tr') \<Rightarrow> (Inl e, tr')
                  | (Inr u, tr') \<Rightarrow> (Inr result, tr')))
          else
            (case logStepComplete E info StatusSuccess result JUndefined tr of
               (Inl e, tr') \<Rightarrow> (Inl e, tr')
             | (Inr u, tr') \<Rightarrow> (Inr result, tr')))"

definition stepHandler :: "env \<Rightarrow> (jsval \<Rightarrow> exn + jsval) \<Rightarrow> jsval \<Rightarrow> StepContext \<Rightarrow> jsval eff" where
  "stepHandler E stepFn inp c tr =
     (case logStepStart_sh E c inp tr of
        (Inl e, tr1) \<Rightarrow> (Inl e, tr1)
      | (Inr info, tr1) \<Rightarrow>
          (case stepHandler_body E info stepFn inp tr1 of
             (Inr result, tr2) \<Rightarrow> (Inr result, tr2)
           | (Inl error, tr2) \<Rightarrow> log_and_rethrow E info error tr2))"

subsection \<open>What the claims about step logging speak of\<close>

text \<open>The completion records among a list of requests, in the order sent.\<close>

definition completions :: "log_request list \<Rightarrow> complete_data list" where
  "completions tr = concat (map (\<lambda>r. case r of StartAction d \<Rightarrow> [] | CompleteAction d \<Rightarrow> [d]) tr)"

text \<open>
  A failed step, in the words of the specification: the step throws, or its result is an
  object whose \<open>success\<close> field equals \<open>false\<close>.
\<close>

fun step_failed :: "exn + jsval \<Rightarrow> bool" where
  "step_failed (Inl e) = True"
| "step_failed (Inr (JObj kvs)) = (map_of kvs ''success'' = Some (JBool False))"
| "step_failed (Inr v) = False"

text \<open>The output a wrapper hands to \<open>logStepComplete\<close>: the result, or \<open>undefined\<close> after a throw.\<close>

definition returned_output :: "exn + jsval \<Rightarrow> jsval" where
  "returned_output outcome = (case outcome of Inl e \<Rightarrow> JUndefined | Inr result \<Rightarrow> result)"

text \<open>The completion status the specification asks for.\<close>

definition recorded_status :: "exn + jsval \<Rightarrow> log_status" where
  "recorded_status outcome = (if step_failed outcome then StatusError else StatusSuccess)"

text \<open>
  When \<open>logStepComplete\<close> sends anything at all: the log id is truthy and
  \<open>redactSensitiveData\<close> returns for the output.
\<close>

definition sends_completion :: "env \<Rightarrow> LogInfo \<Rightarrow> exn + jsval \<Rightarrow> bool" where
  "sends_completion E info outcome \<longleftrightarrow>
     truthy (logId info) \<and> (\<exists>r. redactSensitiveData E (returned_output outcome) = Inr r)"

text \<open>A request whose snapshot is what \<open>redactSensitiveData\<close> returned for the input or the output.\<close>

definition is_redacted_request :: "env \<Rightarrow> jsval \<Rightarrow> jsval \<Rightarrow> log_request \<Rightarrow> bool" where
  "is_redacted_request E inp out req =
     (case req of
        StartAction d \<Rightarrow> redactSensitiveData E inp = Inr (s_input d)
      | CompleteAction d \<Rightarrow> redactSensitiveData E out = Inr (c_output d))"

text \<open>Concrete surroundings for the examples: a redaction that masks \<open>apiKey\<close>, a log endpoint
  that answers, and one that is unreachable.\<close>

definition redact_mask :: "jsval \<Rightarrow> jsval" where
  "redact_mask v =
     (case v of
        JObj kvs \<Rightarrow> JObj (map (\<lambda>(k, x). if k = ''apiKey'' then (k, JStr ''[REDACTED]'') else (k, x)) kvs)
      | _ \<Rightarrow> v)"

definition env_online :: env where
  "env_online =
     \<lparr>redactSensitiveData = (\<lambda>v. Inr (redact_mask v)),
      fetch = (\<lambda>tr req. FetchResponse True
                 (Inr (JObj [(''logId'', JStr ''log-1''), (''startTime'', JNum 1000)]))),
      date_now = 1000\<rparr>"

definition env_offline :: env where
  "env_offline =
     \<lparr>redactSensitiveData = (\<lambda>v. Inr v),
      fetch = (\<lambda>tr req. FetchRejects (ErrorObj ''fetch failed'')),
      date_now = 1000\<rparr>"

definition ctx_fetch :: StepContext where
  "ctx_fetch = \<lparr>executionId = Some ''exec-1'', nodeId = ''n2'', nodeName = ''Fetch'',
                 nodeType = ''action''\<rparr>"

definition failed_result :: jsval where
  "failed_result = JObj [(''success'', JBool False), (''error'', JStr ''timeout'')]"

definition ok_result :: jsval where
  "ok_result = JObj [(''success'', JBool True), (''id'', JStr ''t1'')]"

definition secret_input :: jsval where
  "secret_input = JObj [(''url'', JStr ''https://example.com''), (''apiKey'', JStr ''sk-123'')]"

section \<open>Integration credentials (lib/integrations-supabase.ts)\<close>

subsection \<open>Buffers, hex and strings\<close>

text \<open>
  A \<open>Buffer\<close> is a list of bytes. Keys, ciphertexts and the parts of a ciphertext are
  strings of characters, one character for each code unit: the code looks at their length, at
  the colons and at the hex digits, and treats every other character alike.
\<close>

type_synonym bytes = "8 word list"

text \<open>
  A plaintext is a JavaScript string proper, a list of UTF-16 code units, since
  \<open>cipher.update(plaintext, "utf8", ...)\<close> and \<open>decipher.update(..., "utf8")\<close> encode and
  decode it. \<open>js\<close> embeds a string of characters.
\<close>

type_synonym js_string = "16 word list"

definition js :: "string \<Rightarrow> js_string" where
  "js s = map (\<lambda>c. of_nat (of_char c)) s"

text \<open>High surrogates are \<open>D800..DBFF\<close>, low surrogates \<open>DC00..DFFF\<close>.\<close>

definition is_high :: "nat \<Rightarrow> bool" where
  "is_high u \<longleftrightarrow> 55296 \<le> u \<and> u \<le> 56319"

definition is_low :: "nat \<Rightarrow> bool" where
  "is_low u \<longleftrightarrow> 56320 \<le> u \<and> u \<le> 57343"

text \<open>
  The code points of a list of code units, as the UTF-8 encoder reads them: a high
  surrogate followed by a low one is one code point beyond \<open>FFFF\<close>; any other surrogate is
  unpaired and is replaced by \<open>U+FFFD\<close> (65533).
\<close>

fun code_points :: "nat list \<Rightarrow> nat list" where
  "code_points [] = []"
| "code_points [u] = [if is_high u \<or> is_low u then 65533 else u]"
| "code_points (u # v # rest) =
     (if is_high u \<and> is_low v
      then (65536 + (u - 55296) * 1024 + (v - 56320)) # code_points rest
      else (if is_high u \<or> is_low u then 65533 else u) # code_points (v # rest))"

text \<open>The one to four bytes of a code point in UTF-8.\<close>

definition encode_code_point :: "nat \<Rightarrow> nat list" where
  "encode_code_point cp =
     (if cp < 128 then [cp]
      else if cp < 2048 then [192 + cp div 64, 128 + cp mod 64]
      else if cp < 65536 then [224 + cp div 4096, 128 + (cp div 64) mod 64, 128 + cp mod 64]
      else [240 + cp div 262144, 128 + (cp div 4096) mod 64, 128 + (cp div 64) mod 64,
            128 + cp mod 64])"

definition utf8_bytes :: "js_string \<Rightarrow> bytes" where
  "utf8_bytes s = map of_nat (concat (map encode_code_point (code_points (map unat s))))"

text \<open>
  Decoding UTF-8 as the platform does (the decoder of the Encoding Standard): a byte that
  cannot start or continue a sequence ends it with one \<open>U+FFFD\<close>, and decoding goes on at
  that byte. The first continuation byte is bounded more tightly after \<open>E0\<close>, \<open>ED\<close>, \<open>F0\<close>
  and \<open>F4\<close>, which rules out overlong forms, surrogates and code points beyond \<open>10FFFF\<close>.
\<close>

definition continuation :: "nat \<Rightarrow> bool" where
  "continuation b \<longleftrightarrow> 128 \<le> b \<and> b \<le> 191"

definition lower_bound :: "nat \<Rightarrow> nat" where
  "lower_bound b0 = (if b0 = 224 then 160 else if b0 = 240 then 144 else 128)"

definition upper_bound :: "nat \<Rightarrow> nat" where
  "upper_bound b0 = (if b0 = 237 then 159 else if b0 = 244 then 143 else 191)"

fun decode_utf8 :: "nat list \<Rightarrow> nat list" where
  "decode_utf8 [] = []"
| "decode_utf8 (b0 # rest) =
     (if b0 < 128 then b0 # decode_utf8 rest
      else if 194 \<le> b0 \<and> b0 \<le> 223 then
        (case rest of
           [] \<Rightarrow> [65533]
         | b1 # r1 \<Rightarrow>
             if continuation b1 then ((b0 - 192) * 64 + (b1 - 128)) # decode_utf8 r1
             else 65533 # decode_utf8 rest)
      else if 224 \<le> b0 \<and> b0 \<le> 239 then
        (case rest of
           [] \<Rightarrow> [65533]
         | b1 # r1 \<Rightarrow>
             if lower_bound b0 \<le> b1 \<and> b1 \<le> upper_bound b0 then
               (case r1 of
                  [] \<Rightarrow> [65533]
                | b2 # r2 \<Rightarrow>
                    if continuation b2
                    then ((b0 - 224) * 4096 + (b1 - 128) * 64 + (b2 - 128)) # decode_utf8 r2
                    else 65533 # decode_utf8 r1)
             else 65533 # decode_utf8 rest)
      else if 240 \<le> b0 \<and> b0 \<le> 244 then
        (case rest of
           [] \<Rightarrow> [65533]
         | b1 # r1 \<Rightarrow>
             if lower_bound b0 \<le> b1 \<and> b1 \<le> upper_bound b0 then
               (case r1 of
                  [] \<Rightarrow> [65533]
                | b2 # r2 \<Rightarrow>
                    if continuation b2 then
                      (case r2 of
                         [] \<Rightarrow> [65533]
                       | b3 # r3 \<Rightarrow>
                           if continuation b3
                           then ((b0 - 240) * 262144 + (b1 - 128) * 4096 + (b2 - 128) * 64 +
                                 (b3 - 128)) # decode_utf8 r3
                           else 65533 # decode_utf8 r2)
                    else 65533 # decode_utf8 r1)
             else 65533 # decode_utf8 rest)
      else 65533 # decode_utf8 rest)"

text \<open>The code units of a code point: itself, or a surrogate pair beyond \<open>FFFF\<close>.\<close>

definition code_units :: "nat \<Rightarrow> nat list" where
  "code_units cp =
     (if cp < 65536 then [cp]
      else [55296 + (cp - 65536) div 1024, 56320 + (cp - 65536) mod 1024])"

definition utf8_string :: "bytes \<Rightarrow> js_string" where
  "utf8_string bs = map of_nat (concat (map code_units (decode_utf8 (map unat bs))))"

text \<open>\<open>buf.toString("hex")\<close>: two lower-case digits for each byte.\<close>

definition hex_digit :: "nat \<Rightarrow> char" where
  "hex_digit n = ''0123456789abcdef'' ! (n mod 16)"

definition hex_encode :: "bytes \<Rightarrow> string" where
  "hex_encode bs = concat (map (\<lambda>b. [hex_digit (unat b div 16), hex_digit (unat b mod 16)]) bs)"

text \<open>
  \<open>Buffer.from(s, "hex")\<close>: digits of either case, two for each byte; decoding stops at
  the first pair that is not two hex digits, and a single trailing character is dropped.
\<close>

definition hex_value :: "char \<Rightarrow> nat option" where
  "hex_value c =
     (let n = (of_char c :: nat) in
      if 48 \<le> n \<and> n \<le> 57 then Some (n - 48)
      else if 97 \<le> n \<and> n \<le> 102 then Some (n - 87)
      else if 65 \<le> n \<and> n \<le> 70 then Some (n - 55)
      else None)"

fun hex_decode :: "string \<Rightarrow> bytes" where
  "hex_decode (c1 # c2 # rest) =
     (case (hex_value c1, hex_value c2) of
        (Some h, Some l) \<Rightarrow> of_nat (16 * h + l) # hex_decode rest
      | _ \<Rightarrow> [])"
| "hex_decode s = []"

text \<open>\<open>s.split(sep)\<close> for a separator of one character.\<close>

fun split_on :: "char \<Rightarrow> string \<Rightarrow> string list" where
  "split_on sep [] = [[]]"
| "split_on sep (x # xs) =
     (if x = sep then [] # split_on sep xs
      else (case split_on sep xs of
              [] \<Rightarrow> [[x]]
            | p # ps \<Rightarrow> (x # p) # ps))"

subsection \<open>The library behind the module\<close>

text \<open>
  \<open>node:crypto\<close> and \<open>JSON\<close> are not code of the repository; they are parameters.
  \<open>cipher_gcm key iv plaintext\<close> stands for \<open>createCipheriv("aes-256-gcm", key, iv)\<close>
  followed by \<open>update\<close>, \<open>final\<close> and \<open>getAuthTag\<close>: it throws, or gives the ciphertext and
  the authentication tag. \<open>decipher_init key iv tag\<close> stands for \<open>createDecipheriv\<close>
  followed by \<open>setAuthTag\<close>: the exception one of them throws (a key, nonce or tag it
  refuses), if any. \<open>decipher_gcm key iv tag ciphertext\<close> stands for the decryption done by
  \<open>update\<close> and \<open>final\<close>: it throws (a failed authentication), or gives the plaintext.
\<close>

record node_lib =
  cipher_gcm :: "bytes \<Rightarrow> bytes \<Rightarrow> bytes \<Rightarrow> exn + (bytes \<times> bytes)"
  decipher_init :: "bytes \<Rightarrow> bytes \<Rightarrow> bytes \<Rightarrow> exn option"
  decipher_gcm :: "bytes \<Rightarrow> bytes \<Rightarrow> bytes \<Rightarrow> bytes \<Rightarrow> exn + bytes"
  JSON_parse :: "js_string \<Rightarrow> exn + jsval"
  JSON_stringify :: "jsval \<Rightarrow> js_string"

text \<open>
  What AES-256-GCM promises for a key of 32 bytes and the 16-byte nonce of \<open>encrypt\<close>:
  encryption succeeds, and decryption with the same key, nonce and tag is accepted and
  gives the plaintext back.
\<close>

definition gcm_correct :: "node_lib \<Rightarrow> bool" where
  "gcm_correct L \<longleftrightarrow>
     (\<forall>key iv pt. length key = 32 \<and> length iv = 16 \<longrightarrow>
        (\<exists>ct tag. cipher_gcm L key iv pt = Inr (ct, tag) \<and>
                  decipher_init L key iv tag = None \<and>
                  decipher_gcm L key iv tag ct = Inr pt))"

subsection \<open>Encryption envelope\<close>

definition IV_LENGTH :: nat where
  "IV_LENGTH = 16"

text \<open>
  \<open>getEncryptionKey\<close>: the argument is \<open>process.env.INTEGRATION_ENCRYPTION_KEY\<close>
  (\<open>None\<close> when unset).
\<close>

definition getEncryptionKey :: "string option \<Rightarrow> exn + bytes" where
  "getEncryptionKey keyEnv =
     (case keyEnv of
        None \<Rightarrow> Inl (ErrorObj ''INTEGRATION_ENCRYPTION_KEY environment variable is required for encrypting integration credentials'')
      | Some keyHex \<Rightarrow>
          if keyHex = [] then
            Inl (ErrorObj ''INTEGRATION_ENCRYPTION_KEY environment variable is required for encrypting integration credentials'')
          else if length keyHex \<noteq> 64 then
            Inl (ErrorObj ''INTEGRATION_ENCRYPTION_KEY must be a 64-character hex string (32 bytes)'')
          else Inr (hex_decode keyHex))"

text \<open>
  \<open>encrypt\<close>: the nonce \<open>iv\<close> is what \<open>randomBytes(IV_LENGTH)\<close> returned, an explicit
  argument here. The result is \<open>iv:authTag:ciphertext\<close>, each part in hex.
\<close>

definition encrypt :: "node_lib \<Rightarrow> string option \<Rightarrow> bytes \<Rightarrow> js_string \<Rightarrow> exn + string" where
  "encrypt L keyEnv iv plaintext =
     (case getEncryptionKey keyEnv of
        Inl e \<Rightarrow> Inl e
      | Inr key \<Rightarrow>
          (case cipher_gcm L key iv (utf8_bytes plaintext) of
             Inl e \<Rightarrow> Inl e
           | Inr (encrypted, authTag) \<Rightarrow>
               Inr (hex_encode iv @ '':'' @ hex_encode authTag @ '':'' @ hex_encode encrypted)))"

text \<open>
  \<open>decrypt\<close>. The nonce and the tag go through \<open>Buffer.from(..., "hex")\<close>, which never
  throws; the third part goes to \<open>decipher.update(encrypted, "hex", "utf8")\<close>, which throws
  for a string of odd length and otherwise decodes the hex digits in the same way.
\<close>

definition decrypt :: "node_lib \<Rightarrow> string option \<Rightarrow> string \<Rightarrow> exn + js_string" where
  "decrypt L keyEnv ciphertext =
     (case getEncryptionKey keyEnv of
        Inl e \<Rightarrow> Inl e
      | Inr key \<Rightarrow>
          (case split_on CHR '':'' ciphertext of
             [p0, p1, p2] \<Rightarrow>
               (case decipher_init L key (hex_decode p0) (hex_decode p1) of
                  Some e \<Rightarrow> Inl e
                | None \<Rightarrow>
                    if odd (length p2)
                    then Inl (ErrorObj ''The argument encoding is invalid for data of odd length'')
                    else
                      (case decipher_gcm L key (hex_decode p0) (hex_decode p1) (hex_decode p2) of
                         Inl e \<Rightarrow> Inl e
                       | Inr decrypted \<Rightarrow> Inr (utf8_string decrypted)))
           | _ \<Rightarrow> Inl (ErrorObj ''Invalid encrypted data format'')))"

definition encryptConfig :: "node_lib \<Rightarrow> string option \<Rightarrow> bytes \<Rightarrow> jsval \<Rightarrow> exn + string" where
  "encryptConfig L keyEnv iv cfg = encrypt L keyEnv iv (JSON_stringify L cfg)"



subsection \<open>The integrations table\<close>

text \<open>A row of the table \<open>integrations\<close>; \<open>i_config\<close> is the encrypted blob.\<close>

record integration_row =
  i_id :: string
  i_user_id :: string
  i_name :: string
  i_type :: string
  i_config :: string
  i_created_at :: string
  i_updated_at :: string

text \<open>
  The database as the queries of this module see it: the rows of the table, and the error
  every query is answered with while the database cannot be reached. The Supabase client
  does not throw: a query answers with the pair \<open>{data, error}\<close>.
\<close>

record database =
  integrations :: "integration_row list"
  db_error :: "string option"

type_synonym 'a query_result = "'a option \<times> string option"

definition select_where :: "database \<Rightarrow> (integration_row \<Rightarrow> bool) \<Rightarrow> integration_row list query_result" where
  "select_where db P =
     (case db_error db of
        Some m \<Rightarrow> (None, Some m)
      | None \<Rightarrow> (Some (filter P (integrations db)), None))"









subsection \<open>Ownership of the integrations a workflow names\<close>

text \<open>
  \<open>WorkflowNodeForValidation\<close>: every level is optional, and the innermost value is
  checked with \<open>typeof\<close> at run time, so it is any value.
\<close>

record node_config =
  integrationId :: "jsval option"

record node_data =
  config :: "node_config option"

record WorkflowNodeForValidation =
  data :: "node_data option"

text \<open>\<open>node.data?.config?.integrationId\<close>\<close>

definition node_integrationId :: "WorkflowNodeForValidation \<Rightarrow> jsval" where
  "node_integrationId node =
     (case data node of
        None \<Rightarrow> JUndefined
      | Some d \<Rightarrow>
          (case config d of
             None \<Rightarrow> JUndefined
           | Some c \<Rightarrow> (case integrationId c of None \<Rightarrow> JUndefined | Some v \<Rightarrow> v)))"

text \<open>The loop of \<open>extractIntegrationIds\<close>, pushing the truthy strings in node order.\<close>

fun collect_ids :: "WorkflowNodeForValidation list \<Rightarrow> string list" where
  "collect_ids [] = []"
| "collect_ids (node # nodes) =
     (case node_integrationId node of
        JStr s \<Rightarrow> (if s \<noteq> [] then s # collect_ids nodes else collect_ids nodes)
      | _ \<Rightarrow> collect_ids nodes)"

text \<open>\<open>[...new Set(xs)]\<close>: each element once, in the order of first occurrence.\<close>

fun set_in_order :: "'a list \<Rightarrow> 'a list" where
  "set_in_order [] = []"
| "set_in_order (x # xs) = x # set_in_order (filter (\<lambda>y. y \<noteq> x) xs)"

definition extractIntegrationIds :: "WorkflowNodeForValidation list \<Rightarrow> string list" where
  "extractIntegrationIds nodes = set_in_order (collect_ids nodes)"

record validation =
  valid :: bool
  invalidIds :: "string list option"

definition validateWorkflowIntegrations ::
  "database \<Rightarrow> WorkflowNodeForValidation list \<Rightarrow> string \<Rightarrow> validation" where
  "validateWorkflowIntegrations db nodes userId =
     (let integrationIds = extractIntegrationIds nodes in
      if length integrationIds = 0 then \<lparr>valid = True, invalidIds = None\<rparr>
      else
        (case select_where db (\<lambda>r. i_id r \<in> set integrationIds) of
           (d, Some m) \<Rightarrow> \<lparr>valid = False, invalidIds = None\<rparr>
         | (existingIntegrations, None) \<Rightarrow>
             (let invalid = map i_id (filter (\<lambda>i. i_user_id i \<noteq> userId)
                              (case existingIntegrations of None \<Rightarrow> [] | Some rs \<Rightarrow> rs))
              in if length invalid > 0 then \<lparr>valid = False, invalidIds = Some invalid\<rparr>
                 else \<lparr>valid = True, invalidIds = None\<rparr>)))"

subsection \<open>What the claims about integrations speak of\<close>

text \<open>
  The stored integrations whose id is among \<open>ids\<close> and whose owner is another user.
\<close>

definition foreign_rows :: "database \<Rightarrow> string list \<Rightarrow> string \<Rightarrow> integration_row list" where
  "foreign_rows db ids userId =
     filter (\<lambda>r. i_id r \<in> set ids \<and> i_user_id r \<noteq> userId) (integrations db)"

text \<open>
  A string of hex digits.
\<close>

definition is_hex_string :: "string \<Rightarrow> bool" where
  "is_hex_string s \<longleftrightarrow> (\<forall>c\<in>set s. hex_value c \<noteq> None)"

text \<open>
  A plaintext without unpaired surrogates: each high surrogate is followed by a low one,
  and no low surrogate stands elsewhere.
\<close>

fun well_formed_units :: "nat list \<Rightarrow> bool" where
  "well_formed_units [] = True"
| "well_formed_units [u] = (\<not> is_high u \<and> \<not> is_low u)"
| "well_formed_units (u # v # rest) =
     (if is_high u then is_low v \<and> well_formed_units rest
      else \<not> is_low u \<and> well_formed_units (v # rest))"

definition well_formed :: "js_string \<Rightarrow> bool" where
  "well_formed s = well_formed_units (map unat s)"

text \<open>A code point that UTF-8 encodes: below \<open>110000\<close> and no surrogate.\<close>

definition scalar :: "nat \<Rightarrow> bool" where
  "scalar cp \<longleftrightarrow> cp < 55296 \<or> (57344 \<le> cp \<and> cp < 1114112)"

text \<open>
  A stand-in library for the examples: a reversible "cipher" whose tag is the nonce, and a
  JSON reader that knows the empty object only.
\<close>

definition toy_lib :: node_lib where
  "toy_lib =
     \<lparr>cipher_gcm = (\<lambda>key iv pt.
        if length key = 32 then Inr (rev pt, iv) else Inl (ErrorObj ''Invalid key length'')),
      decipher_init = (\<lambda>key iv tag.
        if length key = 32 then None else Some (ErrorObj ''Invalid key length'')),
      decipher_gcm = (\<lambda>key iv tag ct.
        if tag = iv then Inr (rev ct)
        else Inl (ErrorObj ''Unsupported state or unable to authenticate data'')),
      JSON_parse = (\<lambda>s. if s = js ''{}'' then Inr (JObj []) else Inl (ErrorObj ''Unexpected token'')),
      JSON_stringify = (\<lambda>v. js ''{}'')\<rparr>"

definition key_hex :: string where
  "key_hex = ''000102030405060708090a0b0c0d0e0f101112131415161718191A1B1C1D1E1F''"

definition iv_zero :: bytes where
  "iv_zero = replicate 16 0"

text \<open>
  A plaintext that is one unpaired high surrogate, and what \<open>encrypt\<close> makes of it with
  the stand-in library: the nonce, the tag and the reversed bytes \<open>EF BF BD\<close> of \<open>U+FFFD\<close>.
\<close>

definition lone_surrogate :: js_string where
  "lone_surrogate = [55296]"

definition lone_surrogate_sealed :: string where
  "lone_surrogate_sealed =
     hex_encode iv_zero @ '':'' @ hex_encode iv_zero @ '':'' @ hex_encode [189, 191, 239]"


text \<open>
  A small table: one integration of each of two users. The first blob is not of the form
  \<open>iv:authTag:ciphertext\<close>.
\<close>

definition row_alice :: integration_row where
  "row_alice = \<lparr>i_id = ''int-1'', i_user_id = ''alice'', i_name = ''Slack'', i_type = ''slack'',
                 i_config = ''garbage'', i_created_at = ''2025-01-01'', i_updated_at = ''2025-01-02''\<rparr>"

definition row_bob :: integration_row where
  "row_bob = \<lparr>i_id = ''int-2'', i_user_id = ''bob'', i_name = ''Linear'', i_type = ''linear'',
               i_config = ''00:00:00'', i_created_at = ''2025-02-01'', i_updated_at = ''2025-02-02''\<rparr>"

definition db_demo :: database where
  "db_demo = \<lparr>integrations = [row_alice, row_bob], db_error = None\<rparr>"

definition node_with :: "string \<Rightarrow> WorkflowNodeForValidation" where
  "node_with s = \<lparr>data = Some \<lparr>config = Some \<lparr>integrationId = Some (JStr s)\<rparr>\<rparr>\<rparr>"

section \<open>Server-side workflow logging (logStepStartDb, logStepCompleteDb)\<close>

text \<open>\<open>n.toString()\<close> for an integer: decimal digits, with a minus sign when negative.\<close>

definition digit_char :: "nat \<Rightarrow> char" where
  "digit_char d = ''0123456789'' ! (d mod 10)"

fun string_of_nat :: "nat \<Rightarrow> string" where
  "string_of_nat n =
     (if n < 10 then [digit_char n] else string_of_nat (n div 10) @ [digit_char (n mod 10)])"

declare string_of_nat.simps [simp del]

definition string_of_int :: "int \<Rightarrow> string" where
  "string_of_int i = (if i < 0 then CHR ''-'' # string_of_nat (nat (- i)) else string_of_nat (nat i))"

text \<open>
  A row of \<open>workflow_execution_logs\<close>, with the columns these functions write. The id is
  generated by the database on insert.
\<close>

record log_row =
  l_id :: string
  l_execution_id :: string
  l_node_id :: string
  l_node_name :: string
  l_node_type :: string
  l_status :: string
  l_input :: jsval
  l_output :: jsval
  l_error :: "string option"
  l_started_at :: string
  l_completed_at :: "string option"
  l_duration :: "string option"

text \<open>
  The log table, and the error every statement is answered with while the database cannot
  be reached.
\<close>

record log_db =
  logs :: "log_row list"
  log_db_error :: "string option"

text \<open>The clock: what \<open>Date.now()\<close> and \<open>new Date().toISOString()\<close> read.\<close>

record clock =
  now_ms :: int
  now_iso :: string

record LogStepStartParams =
  p_executionId :: string
  p_nodeId :: string
  p_nodeName :: string
  p_nodeType :: string
  p_input :: jsval

record LogStepStartResult =
  r_logId :: string
  r_startTime :: int

record LogStepCompleteParams =
  q_logId :: string
  q_startTime :: int
  q_status :: log_status
  q_output :: jsval
  q_error :: "string option"

definition status_text :: "log_status \<Rightarrow> string" where
  "status_text s = (case s of StatusSuccess \<Rightarrow> ''success'' | StatusError \<Rightarrow> ''error'')"

text \<open>
  \<open>insert(...).select().single()\<close>: the database gives the row the id \<open>new_id\<close>; the
  statement fails when the database cannot be reached or the id is taken (primary key).
\<close>

definition insert_log :: "log_db \<Rightarrow> log_row \<Rightarrow> log_row query_result \<times> log_db" where
  "insert_log db row =
     (case log_db_error db of
        Some m \<Rightarrow> ((None, Some m), db)
      | None \<Rightarrow>
          if l_id row \<in> l_id ` set (logs db)
          then ((None, Some ''duplicate key value violates unique constraint''), db)
          else ((Some row, None), db\<lparr>logs := logs db @ [row]\<rparr>))"

text \<open>\<open>update(...).eq("id", logId)\<close>: no matching row is not an error.\<close>

definition update_log :: "log_db \<Rightarrow> string \<Rightarrow> (log_row \<Rightarrow> log_row) \<Rightarrow> string option \<times> log_db" where
  "update_log db lid f =
     (case log_db_error db of
        Some m \<Rightarrow> (Some m, db)
      | None \<Rightarrow> (None, db\<lparr>logs := map (\<lambda>r. if l_id r = lid then f r else r) (logs db)\<rparr>))"

definition logStepStartDb ::
  "clock \<Rightarrow> string \<Rightarrow> LogStepStartParams \<Rightarrow> log_db \<Rightarrow> (exn + LogStepStartResult) \<times> log_db" where
  "logStepStartDb clk new_id params db =
     (case insert_log db
             \<lparr>l_id = new_id, l_execution_id = p_executionId params, l_node_id = p_nodeId params,
              l_node_name = p_nodeName params, l_node_type = p_nodeType params,
              l_status = ''running'', l_input = p_input params, l_output = JNull,
              l_error = None, l_started_at = now_iso clk, l_completed_at = None,
              l_duration = None\<rparr> of
        ((d, Some m), db') \<Rightarrow> (Inl (ErrorObj m), db')
      | ((None, None), db') \<Rightarrow> (Inl (ErrorObj ''Cannot read properties of null''), db')
      | ((Some log, None), db') \<Rightarrow> (Inr \<lparr>r_logId = l_id log, r_startTime = now_ms clk\<rparr>, db'))"

definition logStepCompleteDb ::
  "clock \<Rightarrow> LogStepCompleteParams \<Rightarrow> log_db \<Rightarrow> (exn + unit) \<times> log_db" where
  "logStepCompleteDb clk params db =
     (let duration = now_ms clk - q_startTime params in
      case update_log db (q_logId params)
             (\<lambda>r. r\<lparr>l_status := status_text (q_status params),
                     l_output := q_output params,
                     l_error := q_error params,
                     l_completed_at := Some (now_iso clk),
                     l_duration := Some (string_of_int duration)\<rparr>) of
        (Some m, db') \<Rightarrow> (Inl (ErrorObj m), db')
      | (None, db') \<Rightarrow> (Inr (), db'))"

subsection \<open>What the claim about running log rows speaks of\<close>

text \<open>A call of one of the two functions, with what the clock and the database supply.\<close>

datatype log_call =
    CallStart clock string LogStepStartParams
  | CallComplete clock LogStepCompleteParams

fun run_call :: "log_call \<Rightarrow> log_db \<Rightarrow> log_db" where
  "run_call (CallStart clk new_id params) db = snd (logStepStartDb clk new_id params db)"
| "run_call (CallComplete clk params) db = snd (logStepCompleteDb clk params db)"

fun run_calls :: "log_call list \<Rightarrow> log_db \<Rightarrow> log_db" where
  "run_calls [] db = db"
| "run_calls (c # cs) db = run_calls cs (run_call c db)"

text \<open>The rows of an (execution, node) pair that are in status \<open>running\<close>.\<close>

definition running_rows :: "string \<Rightarrow> string \<Rightarrow> log_db \<Rightarrow> log_row list" where
  "running_rows eid nid db =
     filter (\<lambda>r. l_execution_id r = eid \<and> l_node_id r = nid \<and> l_status r = ''running'') (logs db)"

text \<open>The calls of \<open>logStepStartDb\<close> for an (execution, node) pair.\<close>

definition starts_of :: "string \<Rightarrow> string \<Rightarrow> log_call list \<Rightarrow> log_call list" where
  "starts_of eid nid cs =
     filter (\<lambda>c. case c of
                   CallStart clk new_id params \<Rightarrow> p_executionId params = eid \<and> p_nodeId params = nid
                 | CallComplete clk params \<Rightarrow> False) cs"

text \<open>Concrete calls for the examples.\<close>

definition clock_demo :: clock where
  "clock_demo = \<lparr>now_ms = 1700000000250, now_iso = ''2023-11-14T22:13:20.250Z''\<rparr>"

definition start_fetch :: LogStepStartParams where
  "start_fetch = \<lparr>p_executionId = ''exec-1'', p_nodeId = ''n2'', p_nodeName = ''Fetch'',
                   p_nodeType = ''action'', p_input = JObj []\<rparr>"

definition complete_log :: "string \<Rightarrow> log_status \<Rightarrow> LogStepCompleteParams" where
  "complete_log lid st = \<lparr>q_logId = lid, q_startTime = 1700000000000, q_status = st,
                           q_output = JObj [], q_error = None\<rparr>"

definition empty_log_db :: log_db where
  "empty_log_db = \<lparr>logs = [], log_db_error = None\<rparr>"

section \<open>Workflow graph execution (lib/workflow-executor.workflow)\<close>

text \<open>
  The routes that start a run import \<open>executeWorkflow\<close> from this module, but the module
  itself is not among the sources. Everything in this section is therefore modelled from
  the specification (its sections 3, 4 and 7), not from code.
\<close>

subsection \<open>Graph model\<close>

text \<open>
  Modelled from the spec: the \<open>WorkflowNode\<close> type of lib/workflow-store is missing. A
  node has an identifier, a type tag (\<open>trigger\<close>, \<open>action\<close>, \<open>condition\<close>, ...), a display
  name and a configuration mapping field names to values.
\<close>

record WorkflowNode =
  n_id :: string
  n_type :: string
  n_name :: string
  n_config :: "(string \<times> jsval) list"

text \<open>
  Modelled from the spec: the \<open>WorkflowEdge\<close> type of lib/workflow-store is missing. An
  edge has a source node id, a target node id and an optional branch label.
\<close>

record WorkflowEdge =
  e_source :: string
  e_target :: string
  e_label :: "string option"

subsection \<open>Dependency ordering\<close>

text \<open>
  Modelled from the spec: the remaining in-degree of a node, the number of edges into it
  that are still there.
\<close>

definition in_degree :: "WorkflowEdge list \<Rightarrow> WorkflowNode \<Rightarrow> nat" where
  "in_degree es n = length (filter (\<lambda>e. e_target e = n_id n) es)"

text \<open>
  Modelled from the spec: the ordering function of the executor is missing. In-degree
  elimination in the style of Kahn: among the remaining nodes the first one, in array
  order, with remaining in-degree zero comes next, and its outgoing edges are taken away;
  when nodes remain and none has in-degree zero, a cycle is detected and there is no order.
\<close>

function kahn :: "WorkflowNode list \<Rightarrow> WorkflowEdge list \<Rightarrow> WorkflowNode list option" where
  "kahn ns es =
     (if ns = [] then Some []
      else
        (case find (\<lambda>n. in_degree es n = 0) ns of
           None \<Rightarrow> None
         | Some n \<Rightarrow>
             map_option (\<lambda>order. n # order)
               (kahn (remove1 n ns) (filter (\<lambda>e. e_source e \<noteq> n_id n) es))))"
  by pat_completeness auto
termination
proof (relation "measure (\<lambda>(ns, es). length ns)")
  show "wf (measure (\<lambda>(ns, es). length ns))" by simp
next
  fix ns :: "WorkflowNode list" and es :: "WorkflowEdge list" and n
  assume "ns \<noteq> []" and f: "find (\<lambda>n. in_degree es n = 0) ns = Some n"
  have "n \<in> set ns"
    using f by (auto simp: find_Some_iff)
  then have "length (remove1 n ns) < length ns"
    by (simp add: length_remove1) (cases ns; simp)
  then show "((remove1 n ns, filter (\<lambda>e. e_source e \<noteq> n_id n) es), (ns, es))
               \<in> measure (\<lambda>(ns, es). length ns)"
    by simp
qed

declare kahn.simps [simp del]

text \<open>
  Modelled from the spec: the structural errors of section 7, a cycle in the graph and a
  missing node referenced by an edge.
\<close>

datatype structural_error = CycleDetected | MissingNode

text \<open>
  Modelled from the spec: an edge whose source or target is no node of the graph is a
  structural error; otherwise the order is the one found by in-degree elimination.
\<close>

definition dependency_order ::
  "WorkflowNode list \<Rightarrow> WorkflowEdge list \<Rightarrow> structural_error + WorkflowNode list" where
  "dependency_order nodes edges =
     (if \<exists>e\<in>set edges. e_source e \<notin> n_id ` set nodes \<or> e_target e \<notin> n_id ` set nodes
      then Inl MissingNode
      else (case kahn nodes edges of None \<Rightarrow> Inl CycleDetected | Some order \<Rightarrow> Inr order))"

text \<open>
  A walk along edges: each id is joined to the next by an edge. A cycle is a walk that
  returns to its first id.
\<close>

fun is_walk :: "WorkflowEdge list \<Rightarrow> string list \<Rightarrow> bool" where
  "is_walk es [] = True"
| "is_walk es [a] = True"
| "is_walk es (a # b # rest) =
     ((\<exists>e\<in>set es. e_source e = a \<and> e_target e = b) \<and> is_walk es (b # rest))"

definition is_cycle :: "WorkflowEdge list \<Rightarrow> string list \<Rightarrow> bool" where
  "is_cycle es cyc \<longleftrightarrow> cyc \<noteq> [] \<and> is_walk es (cyc @ [hd cyc])"

subsection \<open>Interpolation engine\<close>

text \<open>
  Modelled from the spec: the template scanner of the executor is missing. A template is
  cut into literal text and references \<open>{{...}}\<close>; \<open>find_close\<close> looks for the closing
  \<open>}}\<close> and returns the text before it and the text after it. An opening \<open>{{\<close> that is
  never closed is literal text.
\<close>

fun find_close :: "string \<Rightarrow> (string \<times> string) option" where
  "find_close [] = None"
| "find_close [c] = None"
| "find_close (c # d # cs) =
     (if c = CHR ''}'' \<and> d = CHR ''}'' then Some ([], cs)
      else map_option (\<lambda>(r, rest). (c # r, rest)) (find_close (d # cs)))"

datatype segment = Literal string | Reference string

function scan :: "string \<Rightarrow> segment list" where
  "scan [] = []"
| "scan [c] = [Literal [c]]"
| "scan (c # d # cs) =
     (if c = CHR ''{'' \<and> d = CHR ''{'' then
        (case find_close cs of
           None \<Rightarrow> [Literal (c # d # cs)]
         | Some (r, rest) \<Rightarrow> Reference r # scan rest)
      else Literal [c] # scan (d # cs))"
  by pat_completeness auto
termination
proof (relation "measure length")
  show "wf (measure length)" by simp
next
  fix c d :: char and cs x2 x y
  assume "find_close cs = Some x2" and "(x, y) = x2"
  then have f: "find_close cs = Some (x, y)" by simp
  have "find_close s = Some (r, rest) \<Longrightarrow> length rest < length s" for s r rest
    by (induction s arbitrary: r rule: find_close.induct) (auto split: if_splits)
  from this[OF f] show "(y, c # d # cs) \<in> measure length" by simp
next
  fix c d :: char and cs
  show "(d # cs, c # d # cs) \<in> measure length" by simp
qed

text \<open>
  Modelled from the spec: a field path supports dotted traversal into nested objects and
  numeric array indices. \<open>parse_index\<close> reads a segment of decimal digits.
\<close>

definition digit_value :: "char \<Rightarrow> nat option" where
  "digit_value c =
     (let n = (of_char c :: nat) in if 48 \<le> n \<and> n \<le> 57 then Some (n - 48) else None)"

fun parse_digits :: "nat \<Rightarrow> string \<Rightarrow> nat option" where
  "parse_digits acc [] = Some acc"
| "parse_digits acc (c # cs) =
     (case digit_value c of None \<Rightarrow> None | Some d \<Rightarrow> parse_digits (10 * acc + d) cs)"

definition parse_index :: "string \<Rightarrow> nat option" where
  "parse_index s = (if s = [] then None else parse_digits 0 s)"

fun get_path :: "jsval \<Rightarrow> string list \<Rightarrow> jsval option" where
  "get_path v [] = Some v"
| "get_path (JObj kvs) (k # ks) =
     (case map_of kvs k of None \<Rightarrow> None | Some v \<Rightarrow> get_path v ks)"
| "get_path (JArr xs) (k # ks) =
     (case parse_index k of
        None \<Rightarrow> None
      | Some i \<Rightarrow> if i < length xs then get_path (xs ! i) ks else None)"
| "get_path v (k # ks) = None"

text \<open>
  Modelled from the spec: a reference has the form \<open>NodeDisplayName.fieldPath\<close>; the
  display name is the text before the first dot, and it is looked up in the mapping from
  display name to the node's most recent output. \<open>None\<close>: the node or the field is missing.
\<close>

definition resolve_reference :: "(string \<times> jsval) list \<Rightarrow> string \<Rightarrow> jsval option" where
  "resolve_reference outs r =
     (case split_on CHR ''.'' r of
        [] \<Rightarrow> None
      | name # path \<Rightarrow> (case map_of outs name of None \<Rightarrow> None | Some out \<Rightarrow> get_path out path))"

text \<open>
  Modelled from the spec: a substituted value is stringified. Text stands for itself, a
  number is written in decimal, a boolean as \<open>true\<close> or \<open>false\<close>; the specification does
  not say how other values are written, so that is the parameter \<open>other\<close>.
\<close>

fun value_text :: "(jsval \<Rightarrow> string) \<Rightarrow> jsval \<Rightarrow> string" where
  "value_text other (JStr s) = s"
| "value_text other (JNum n) = string_of_int n"
| "value_text other (JBool b) = (if b then ''true'' else ''false'')"
| "value_text other v = other v"

fun segment_text :: "(jsval \<Rightarrow> string) \<Rightarrow> (string \<times> jsval) list \<Rightarrow> segment \<Rightarrow> string" where
  "segment_text other outs (Literal s) = s"
| "segment_text other outs (Reference r) =
     (case resolve_reference outs r of None \<Rightarrow> [] | Some v \<Rightarrow> value_text other v)"

text \<open>
  Modelled from the spec: the interpolation function of the executor is missing. A
  template that is a single reference and nothing else yields the referenced value as it
  is; any other template yields a string in which each reference is replaced by the text
  of its value. A missing node or field gives the empty string.
\<close>

definition interpolate :: "(jsval \<Rightarrow> string) \<Rightarrow> (string \<times> jsval) list \<Rightarrow> string \<Rightarrow> jsval" where
  "interpolate other outs template =
     (case scan template of
        [Reference r] \<Rightarrow> (case resolve_reference outs r of None \<Rightarrow> JStr [] | Some v \<Rightarrow> v)
      | segs \<Rightarrow> JStr (concat (map (segment_text other outs) segs)))"

text \<open>
  Modelled from the spec: interpolation applies to the string-typed fields of a node's
  configuration; other values pass through untouched.
\<close>

definition resolve_config ::
  "(jsval \<Rightarrow> string) \<Rightarrow> (string \<times> jsval) list \<Rightarrow> (string \<times> jsval) list \<Rightarrow> (string \<times> jsval) list" where
  "resolve_config other outs cfg =
     map (\<lambda>(k, v). (k, case v of JStr s \<Rightarrow> interpolate other outs s | _ \<Rightarrow> v)) cfg"

subsection \<open>Executor\<close>

text \<open>
  Modelled from the spec: the final states of a node, \<open>success\<close>, \<open>error\<close> and \<open>skipped\<close>
  (\<open>pending\<close> and \<open>running\<close> are passed through on the way), and the states of an
  execution.
\<close>

datatype node_status = NodeSuccess | NodeError | NodeSkipped

datatype exec_status = ExecRunning | ExecSuccess | ExecError

text \<open>
  Modelled from the spec: the \<open>NodeExecutionLog\<close> written for a node, as it stands once the
  node is done.
\<close>

record NodeExecutionLog =
  g_nodeId :: string
  g_nodeName :: string
  g_nodeType :: string
  g_status :: node_status
  g_input :: jsval
  g_output :: jsval
  g_error :: "string option"

text \<open>
  Modelled from the spec: the collaborators of the executor. \<open>handler\<close> is the action
  dispatch (the node, its resolved configuration and the trigger input go in; a result
  comes back, or an exception); \<open>redact\<close> masks secrets before a snapshot is persisted;
  \<open>other_text\<close> writes the values whose text the specification leaves open.
\<close>

record executor_env =
  handler :: "WorkflowNode \<Rightarrow> jsval \<Rightarrow> jsval \<Rightarrow> exn + jsval"
  redact :: "jsval \<Rightarrow> jsval"
  other_text :: "jsval \<Rightarrow> string"

text \<open>
  Modelled from the spec: one invocation of an action handler: the node it was invoked
  for, the resolved configuration passed to it, and what it returned or threw.
\<close>

record invocation =
  v_nodeId :: string
  v_input :: jsval
  v_outcome :: "exn + jsval"

text \<open>
  Modelled from the spec: what the executor holds during a run: the map from display name
  to output, the node logs written so far, and the handler invocations made so far.
\<close>

record run_state =
  outputs :: "(string \<times> jsval) list"
  node_logs :: "NodeExecutionLog list"
  invoked :: "invocation list"

text \<open>
  Modelled from the spec: the boolean output of a condition node (the condition step of the
  repository returns \<open>{condition: boolean}\<close>) and the edge label it makes eligible.
\<close>

definition condition_value :: "jsval \<Rightarrow> bool" where
  "condition_value out = (case js_get out ''condition'' of Inl e \<Rightarrow> False | Inr v \<Rightarrow> truthy v)"

definition branch_label :: "jsval \<Rightarrow> string" where
  "branch_label out = (if condition_value out then ''true'' else ''false'')"

text \<open>
  Modelled from the spec: an edge carries the run on to its target when its source
  succeeded and, if the source is a condition node, the edge's label is not the
  non-matching one. A failed or skipped source halts propagation along its edges.
\<close>

definition edge_carries :: "NodeExecutionLog list \<Rightarrow> WorkflowEdge \<Rightarrow> bool" where
  "edge_carries lgs e =
     (case find (\<lambda>l. g_nodeId l = e_source e) lgs of
        None \<Rightarrow> False
      | Some l \<Rightarrow>
          g_status l = NodeSuccess \<and>
          (g_nodeType l \<noteq> ''condition'' \<or>
           (case e_label e of None \<Rightarrow> True | Some lab \<Rightarrow> lab = branch_label (g_output l))))"

text \<open>
  Modelled from the spec: a node without incoming edges always runs; any other node runs
  when some incoming edge carries the run on to it, and is skipped otherwise.
\<close>

definition should_run :: "WorkflowEdge list \<Rightarrow> NodeExecutionLog list \<Rightarrow> WorkflowNode \<Rightarrow> bool" where
  "should_run edges lgs n =
     (let incoming = filter (\<lambda>e. e_target e = n_id n) edges
      in incoming = [] \<or> (\<exists>e\<in>set incoming. edge_carries lgs e))"

text \<open>Modelled from the spec: the error message of a failed node.\<close>

definition failure_message :: "exn + jsval \<Rightarrow> string" where
  "failure_message outcome =
     (case outcome of
        Inl e \<Rightarrow> errorMessage e
      | Inr result \<Rightarrow> (case js_get result ''error'' of Inr (JStr m) \<Rightarrow> m | _ \<Rightarrow> []))"

text \<open>
  Modelled from the spec: steps 1 to 5 of the executor for one node. The configuration is
  resolved against the outputs so far, the handler is invoked, and the result decides: a
  \<open>success: false\<close> result or an exception marks the node \<open>error\<close>; anything else marks it
  \<open>success\<close> and puts its output under its display name. A node that is not to run is
  recorded \<open>skipped\<close> and its handler is not invoked.
\<close>

definition run_node ::
  "executor_env \<Rightarrow> jsval \<Rightarrow> WorkflowEdge list \<Rightarrow> run_state \<Rightarrow> WorkflowNode \<Rightarrow> run_state" where
  "run_node E trig edges st n =
     (if should_run edges (node_logs st) n then
        (let resolved = JObj (resolve_config (other_text E) (outputs st) (n_config n));
             outcome = handler E n resolved trig;
             out = returned_output outcome
         in if step_failed outcome then
              st\<lparr>node_logs := node_logs st @
                     [\<lparr>g_nodeId = n_id n, g_nodeName = n_name n, g_nodeType = n_type n,
                       g_status = NodeError, g_input = redact E resolved,
                       g_output = redact E out, g_error = Some (failure_message outcome)\<rparr>],
                 invoked := invoked st @
                     [\<lparr>v_nodeId = n_id n, v_input = resolved, v_outcome = outcome\<rparr>]\<rparr>
            else
              st\<lparr>outputs := (n_name n, out) # outputs st,
                 node_logs := node_logs st @
                     [\<lparr>g_nodeId = n_id n, g_nodeName = n_name n, g_nodeType = n_type n,
                       g_status = NodeSuccess, g_input = redact E resolved,
                       g_output = redact E out, g_error = None\<rparr>],
                 invoked := invoked st @
                     [\<lparr>v_nodeId = n_id n, v_input = resolved, v_outcome = outcome\<rparr>]\<rparr>)
      else
        st\<lparr>node_logs := node_logs st @
               [\<lparr>g_nodeId = n_id n, g_nodeName = n_name n, g_nodeType = n_type n,
                 g_status = NodeSkipped, g_input = JUndefined, g_output = JUndefined,
                 g_error = None\<rparr>]\<rparr>)"

text \<open>Modelled from the spec: what an execution leaves behind.\<close>

record execution_result =
  x_status :: exec_status
  x_error :: "string option"
  x_logs :: "NodeExecutionLog list"
  x_invoked :: "invocation list"

definition structural_message :: "structural_error \<Rightarrow> string" where
  "structural_message err =
     (case err of CycleDetected \<Rightarrow> ''Workflow graph contains a cycle''
               | MissingNode \<Rightarrow> ''Edge references a missing node'')"

text \<open>
  Modelled from the spec: the entry point \<open>executeWorkflow\<close> is missing. The dependency
  order is built first; a structural error ends the execution with status \<open>error\<close> before
  any node runs. Otherwise the nodes are run in order, and the terminal status is
  \<open>success\<close> if no node errored and \<open>error\<close> otherwise, with the message of the first
  failing node.
\<close>

definition execute ::
  "executor_env \<Rightarrow> WorkflowNode list \<Rightarrow> WorkflowEdge list \<Rightarrow> jsval \<Rightarrow> execution_result" where
  "execute E nodes edges trig =
     (case dependency_order nodes edges of
        Inl err \<Rightarrow>
          \<lparr>x_status = ExecError, x_error = Some (structural_message err), x_logs = [],
           x_invoked = []\<rparr>
      | Inr order \<Rightarrow>
          (let st = foldl (run_node E trig edges)
                      \<lparr>outputs = [], node_logs = [], invoked = []\<rparr> order
           in \<lparr>x_status = (if \<exists>l\<in>set (node_logs st). g_status l = NodeError
                            then ExecError else ExecSuccess),
               x_error = (case find (\<lambda>l. g_status l = NodeError) (node_logs st) of
                            None \<Rightarrow> None | Some l \<Rightarrow> g_error l),
               x_logs = node_logs st,
               x_invoked = invoked st\<rparr>))"

text \<open>The status recorded for a node id, if a log was written for it.\<close>

definition status_of :: "execution_result \<Rightarrow> string \<Rightarrow> node_status option" where
  "status_of res m = map_option g_status (find (\<lambda>l. g_nodeId l = m) (x_logs res))"

subsection \<open>Reachability\<close>

text \<open>
  A root is a node id without incoming edges. \<open>reach_fuel k es a m\<close>: some walk of fewer
  than \<open>k\<close> edges leads from a root to \<open>m\<close> without passing through \<open>a\<close>. A walk that
  repeats no node has at most as many edges as the graph, so that much fuel decides whether
  \<open>m\<close> can be reached while avoiding \<open>a\<close>. A node is reachable only through \<open>a\<close> when it is
  another node and cannot be reached while avoiding \<open>a\<close>.
\<close>

definition is_root :: "WorkflowEdge list \<Rightarrow> string \<Rightarrow> bool" where
  "is_root es m \<longleftrightarrow> (\<forall>e\<in>set es. e_target e \<noteq> m)"

fun reach_fuel :: "nat \<Rightarrow> WorkflowEdge list \<Rightarrow> string \<Rightarrow> string \<Rightarrow> bool" where
  "reach_fuel 0 es a m = False"
| "reach_fuel (Suc k) es a m =
     (m \<noteq> a \<and> (is_root es m \<or> (\<exists>e\<in>set es. e_target e = m \<and> reach_fuel k es a (e_source e))))"

definition reach_avoiding :: "WorkflowEdge list \<Rightarrow> string \<Rightarrow> string \<Rightarrow> bool" where
  "reach_avoiding es a m = reach_fuel (Suc (length es)) es a m"

definition only_through :: "WorkflowEdge list \<Rightarrow> string \<Rightarrow> string \<Rightarrow> bool" where
  "only_through es a m \<longleftrightarrow> m \<noteq> a \<and> \<not> reach_avoiding es a m"

subsection \<open>What the claims about the executor speak of\<close>

text \<open>
  The invariant behind fail-fast: if no log of node \<open>a\<close> says \<open>success\<close>, then every other
  node that was not skipped can be reached from a root while avoiding \<open>a\<close>.
\<close>

definition ran_reaches :: "WorkflowEdge list \<Rightarrow> string \<Rightarrow> run_state \<Rightarrow> bool" where
  "ran_reaches edges a st \<longleftrightarrow>
     ((\<forall>l\<in>set (node_logs st). \<not> (g_nodeId l = a \<and> g_status l = NodeSuccess)) \<longrightarrow>
      (\<forall>l\<in>set (node_logs st). g_status l \<noteq> NodeSkipped \<longrightarrow> g_nodeId l \<noteq> a \<longrightarrow>
          (\<exists>k. reach_fuel k edges a (g_nodeId l))))"

text \<open>
  What the invocations and the logs have to do with each other: each invocation is of a
  node of the run, its outcome is what the handler gave for that node and input, and the
  node has a log whose status is \<open>error\<close> for a failed step and \<open>success\<close> otherwise.
\<close>

definition invoked_logged ::
  "executor_env \<Rightarrow> jsval \<Rightarrow> WorkflowNode list \<Rightarrow> run_state \<Rightarrow> bool" where
  "invoked_logged E trig ns st \<longleftrightarrow>
     (\<forall>c\<in>set (invoked st).
        (\<exists>n\<in>set ns. n_id n = v_nodeId c \<and> handler E n (v_input c) trig = v_outcome c) \<and>
        (\<exists>l\<in>set (node_logs st). g_nodeId l = v_nodeId c \<and>
           g_status l = (if step_failed (v_outcome c) then NodeError else NodeSuccess)))"

text \<open>
  The state an execution starts from.
\<close>

definition initial_state :: run_state where
  "initial_state = \<lparr>outputs = [], node_logs = [], invoked = []\<rparr>"

text \<open>
  The scenario of the specification: \<open>Trigger -> Fetch -> Notify\<close>, where the handler of
  \<open>Fetch\<close> returns \<open>{success: false, error: "timeout"}\<close>. The nodes are submitted in an
  order that is not the execution order.
\<close>

definition n_trigger :: WorkflowNode where
  "n_trigger = \<lparr>n_id = ''t'', n_type = ''trigger'', n_name = ''Trigger'', n_config = []\<rparr>"

definition n_fetch :: WorkflowNode where
  "n_fetch = \<lparr>n_id = ''f'', n_type = ''action'', n_name = ''Fetch'',
               n_config = [(''url'', JStr ''{{Trigger.url}}'')]\<rparr>"

definition n_notify :: WorkflowNode where
  "n_notify = \<lparr>n_id = ''n'', n_type = ''action'', n_name = ''Notify'',
                n_config = [(''text'', JStr ''got {{Fetch.body}}'')]\<rparr>"

definition edge :: "string \<Rightarrow> string \<Rightarrow> WorkflowEdge" where
  "edge a b = \<lparr>e_source = a, e_target = b, e_label = None\<rparr>"

definition env_fetch_fails :: executor_env where
  "env_fetch_fails =
     \<lparr>handler = (\<lambda>n cfg trig.
        if n_type n = ''trigger'' then Inr trig
        else if n_id n = ''f'' then Inr (JObj [(''success'', JBool False), (''error'', JStr ''timeout'')])
        else Inr (JObj [(''success'', JBool True)])),
      redact = (\<lambda>v. v),
      other_text = (\<lambda>v. [])\<rparr>"

definition fetch_call :: invocation where
  "fetch_call =
     \<lparr>v_nodeId = ''f'', v_input = JObj [(''url'', JStr ''https://example.com'')],
      v_outcome = Inr (JObj [(''success'', JBool False), (''error'', JStr ''timeout'')])\<rparr>"

definition chain_nodes :: "WorkflowNode list" where
  "chain_nodes = [n_notify, n_fetch, n_trigger]"

definition chain_edges :: "WorkflowEdge list" where
  "chain_edges = [edge ''t'' ''f'', edge ''f'' ''n'']"

definition trigger_input :: jsval where
  "trigger_input = JObj [(''url'', JStr ''https://example.com'')]"

text \<open>
  The text of a reference: the display name, then each path segment after a dot. A part
  is plain when it contains neither a dot nor a closing brace.
\<close>

definition dotted :: "string list \<Rightarrow> string" where
  "dotted path = concat (map (\<lambda>s. CHR ''.'' # s) path)"

definition reference_text :: "string \<Rightarrow> string list \<Rightarrow> string" where
  "reference_text name path = name @ dotted path"

definition plain_part :: "string \<Rightarrow> bool" where
  "plain_part s \<longleftrightarrow> CHR ''.'' \<notin> set s \<and> CHR ''}'' \<notin> set s"

text \<open>
  The mapping \<open>{A: {value: 42}}\<close>.
\<close>

definition outputs_a :: "(string \<times> jsval) list" where
  "outputs_a = [(''A'', JObj [(''value'', JNum 42)])]"

section \<open>Step logging: results\<close>

lemma isErrorResult_iff: "isErrorResult r \<longleftrightarrow> step_failed (Inr r)"
  by (cases r) (auto simp: isErrorResult_def dom_map_of_conv_image_fst[symmetric] domIff split: option.splits)

lemma logStepStart_body_sent:
  "\<exists>new. snd (logStepStart_body E eid nid nn nt inp tr) = tr @ new \<and>
     (\<forall>req\<in>set new. \<exists>d. req = StartAction d \<and> redactSensitiveData E inp = Inr (s_input d))"
  by (auto simp: logStepStart_body_def Let_def split: sum.splits fetch_outcome.splits)

lemma logStepStart_returns:
  "\<exists>info new. logStepStart E ctx inp tr = (Inr info, tr @ new) \<and>
     (\<forall>req\<in>set new. \<exists>d. req = StartAction d \<and> redactSensitiveData E inp = Inr (s_input d))"
proof -
  have body: "\<exists>info new. (case logStepStart_body E eid nid nn nt inp tr of
                 (Inr info, tr') \<Rightarrow> (Inr info, tr')
               | (Inl e, tr') \<Rightarrow> (Inr (fallback_info E), tr')) = (Inr info, tr @ new) \<and>
     (\<forall>req\<in>set new. \<exists>d. req = StartAction d \<and> redactSensitiveData E inp = Inr (s_input d))"
    for eid nid nn nt
    using logStepStart_body_sent[of E eid nid nn nt inp tr]
    by (cases "logStepStart_body E eid nid nn nt inp tr") (auto split: sum.splits)
  have none: "\<exists>info new. (Inr (fallback_info E), tr) = (Inr info, tr @ new) \<and>
     (\<forall>req\<in>set new. \<exists>d. req = StartAction d \<and> redactSensitiveData E inp = Inr (s_input d))"
    by (rule exI[of _ "fallback_info E"], rule exI[of _ "[]"]) simp
  show ?thesis
  proof (cases ctx)
    case None
    then show ?thesis using none by (simp add: logStepStart_def)
  next
    case (Some c)
    show ?thesis
    proof (cases "executionId c")
      case None
      then show ?thesis using none Some by (simp add: logStepStart_def)
    next
      case (Some eid)
      show ?thesis
      proof (cases "eid = []")
        case True
        then show ?thesis using none Some \<open>ctx = Some c\<close> by (simp add: logStepStart_def)
      next
        case False
        then show ?thesis
          using body[of eid "nodeId c" "nodeName c" "nodeType c"] Some \<open>ctx = Some c\<close>
          by (simp add: logStepStart_def)
      qed
    qed
  qed
qed

lemma logStepComplete_returns:
  "\<exists>new. logStepComplete E info st out err tr = (Inr (), tr @ new) \<and>
     map c_status (completions new) =
       (if truthy (logId info) \<and> (\<exists>r. redactSensitiveData E out = Inr r) then [st] else []) \<and>
     (\<forall>req\<in>set new. \<exists>d. req = CompleteAction d \<and> redactSensitiveData E out = Inr (c_output d))"
  by (auto simp: logStepComplete_def logStepComplete_body_def completions_def Let_def
      split: sum.splits fetch_outcome.splits)

lemma error_of_result_returns: "isErrorResult r \<Longrightarrow> \<exists>err. error_of_result r = Inr err"
  by (cases r) (auto simp: isErrorResult_def error_of_result_def)

lemma wrapper_tail:
  "\<exists>new. (case withStepLogging_body E info outcome tr of
            (Inr result, tr2) \<Rightarrow> (Inr result, tr2)
          | (Inl error, tr2) \<Rightarrow> log_and_rethrow E info error tr2) = (outcome, tr @ new) \<and>
     map c_status (completions new) =
       (if sends_completion E info outcome then [recorded_status outcome] else []) \<and>
     (\<forall>req\<in>set new. \<exists>d. req = CompleteAction d \<and>
        redactSensitiveData E (returned_output outcome) = Inr (c_output d))"
proof (cases outcome)
  case (Inl e)
  obtain new where n: "logStepComplete E info StatusError JUndefined (JStr (errorMessage e)) tr = (Inr (), tr @ new)"
    "map c_status (completions new) =
       (if truthy (logId info) \<and> (\<exists>r. redactSensitiveData E JUndefined = Inr r) then [StatusError] else [])"
    "\<forall>req\<in>set new. \<exists>d. req = CompleteAction d \<and> redactSensitiveData E JUndefined = Inr (c_output d)"
    using logStepComplete_returns[of E info StatusError JUndefined "JStr (errorMessage e)" tr] by blast
  show ?thesis
    using Inl n
    by (intro exI[of _ new])
       (simp add: withStepLogging_body_def log_and_rethrow_def returned_output_def
          sends_completion_def recorded_status_def)
next
  case (Inr result)
  show ?thesis
  proof (cases "isErrorResult result")
    case True
    then obtain err where err: "error_of_result result = Inr err"
      using error_of_result_returns by blast
    obtain new where n: "logStepComplete E info StatusError result err tr = (Inr (), tr @ new)"
      "map c_status (completions new) =
         (if truthy (logId info) \<and> (\<exists>r. redactSensitiveData E result = Inr r) then [StatusError] else [])"
      "\<forall>req\<in>set new. \<exists>d. req = CompleteAction d \<and> redactSensitiveData E result = Inr (c_output d)"
      using logStepComplete_returns[of E info StatusError result err tr] by blast
    show ?thesis
      using Inr True err n isErrorResult_iff[of result]
      by (intro exI[of _ new])
         (simp add: withStepLogging_body_def returned_output_def
            sends_completion_def recorded_status_def)
  next
    case False
    obtain new where n: "logStepComplete E info StatusSuccess result JUndefined tr = (Inr (), tr @ new)"
      "map c_status (completions new) =
         (if truthy (logId info) \<and> (\<exists>r. redactSensitiveData E result = Inr r) then [StatusSuccess] else [])"
      "\<forall>req\<in>set new. \<exists>d. req = CompleteAction d \<and> redactSensitiveData E result = Inr (c_output d)"
      using logStepComplete_returns[of E info StatusSuccess result JUndefined tr] by blast
    show ?thesis
      using Inr False n isErrorResult_iff[of result]
      by (intro exI[of _ new])
         (simp add: withStepLogging_body_def returned_output_def
            sends_completion_def recorded_status_def)
  qed
qed

lemma stepHandler_body_eq:
  "stepHandler_body E info stepFn inp tr = withStepLogging_body E info (stepFn inp) tr"
  by (simp add: stepHandler_body_def withStepLogging_body_def)

lemma logStepStart_sh_eq:
  "logStepStart_sh E c inp tr = logStepStart E (Some c) inp tr"
  by (simp add: logStepStart_sh_def logStepStart_def)

lemma withStepLogging_char:
  "\<exists>info new1 new2.
     logStepStart E ctx inp tr = (Inr info, tr @ new1) \<and>
     withStepLogging E ctx inp stepLogic tr = (stepLogic, tr @ new1 @ new2) \<and>
     completions new1 = [] \<and>
     map c_status (completions new2) =
       (if sends_completion E info stepLogic then [recorded_status stepLogic] else []) \<and>
     (\<forall>req\<in>set (new1 @ new2). is_redacted_request E inp (returned_output stepLogic) req)"
proof -
  obtain info new1 where s: "logStepStart E ctx inp tr = (Inr info, tr @ new1)"
    "\<forall>req\<in>set new1. \<exists>d. req = StartAction d \<and> redactSensitiveData E inp = Inr (s_input d)"
    using logStepStart_returns[of E ctx inp tr] by blast
  obtain new2 where t: "(case withStepLogging_body E info stepLogic (tr @ new1) of
            (Inr result, tr2) \<Rightarrow> (Inr result, tr2)
          | (Inl error, tr2) \<Rightarrow> log_and_rethrow E info error tr2) = (stepLogic, (tr @ new1) @ new2)"
     "map c_status (completions new2) =
       (if sends_completion E info stepLogic then [recorded_status stepLogic] else [])"
     "\<forall>req\<in>set new2. \<exists>d. req = CompleteAction d \<and>
        redactSensitiveData E (returned_output stepLogic) = Inr (c_output d)"
    using wrapper_tail[of E info stepLogic "tr @ new1"] by blast
  have c1: "completions new1 = []"
    using s(2) by (induction new1) (auto simp: completions_def)
  have red: "\<forall>req\<in>set (new1 @ new2). is_redacted_request E inp (returned_output stepLogic) req"
    using s(2) t(3) by (auto simp: is_redacted_request_def)
  have w: "withStepLogging E ctx inp stepLogic tr = (stepLogic, tr @ new1 @ new2)"
    using s(1) t(1) by (simp add: withStepLogging_def)
  show ?thesis using s(1) w c1 t(2) red by blast
qed

lemma stepHandler_eq:
  "stepHandler E stepFn inp c tr = withStepLogging E (Some c) inp (stepFn inp) tr"
  by (simp add: stepHandler_def withStepLogging_def stepHandler_body_eq logStepStart_sh_eq
      split: prod.splits sum.splits)

lemma logStepStart_fallback:
  assumes "\<forall>req result. fetch E tr req \<noteq> FetchResponse True (Inr result)"
  shows "fst (logStepStart E ctx inp tr) = Inr (fallback_info E)"
  using assms
  by (auto simp: logStepStart_def logStepStart_body_def Let_def
      split: option.splits sum.splits fetch_outcome.splits prod.splits)

text \<open>
  Claim C4, as amended. Each wrapper (\<open>withStepLogging\<close> and \<open>stepHandler\<close>) sends at
  most one completion record. It sends one exactly when \<open>logStepStart\<close> returned a truthy
  log id and \<open>redactSensitiveData\<close> returns for the output; the status of that record is
  \<open>error\<close> when the step threw or its result is an object whose \<open>success\<close> field is
  \<open>false\<close>, and \<open>success\<close> in every other case.
\<close>

theorem completion_status_when_logged:
  "(\<exists>info. fst (logStepStart E ctx inp tr) = Inr info \<and>
      map c_status (completions (drop (length tr) (snd (withStepLogging E ctx inp stepLogic tr)))) =
        (if sends_completion E info stepLogic then [recorded_status stepLogic] else [])) \<and>
   (\<exists>info. fst (logStepStart_sh E c inp tr) = Inr info \<and>
      map c_status (completions (drop (length tr) (snd (stepHandler E stepFn inp c tr)))) =
        (if sends_completion E info (stepFn inp) then [recorded_status (stepFn inp)] else []))"
proof -
  have a: "\<exists>info. fst (logStepStart E ctx inp tr) = Inr info \<and>
      map c_status (completions (drop (length tr) (snd (withStepLogging E ctx inp stepLogic tr)))) =
        (if sends_completion E info stepLogic then [recorded_status stepLogic] else [])"
    for ctx stepLogic
  proof -
    obtain info new1 new2 where h:
      "logStepStart E ctx inp tr = (Inr info, tr @ new1)"
      "withStepLogging E ctx inp stepLogic tr = (stepLogic, tr @ new1 @ new2)"
      "completions new1 = []"
      "map c_status (completions new2) =
         (if sends_completion E info stepLogic then [recorded_status stepLogic] else [])"
      using withStepLogging_char[of E ctx inp tr stepLogic] by blast
    have "completions (new1 @ new2) = completions new2"
      using h(3) by (simp add: completions_def)
    then show ?thesis using h by (intro exI[of _ info]) simp
  qed
  show ?thesis
    using a[of ctx stepLogic] a[of "Some c" "stepFn inp"]
    by (simp add: stepHandler_eq logStepStart_sh_eq)
qed

text \<open>
  With a log endpoint that answers: a \<open>success: false\<close> result is recorded as \<open>error\<close>, a
  \<open>success: true\<close> result as \<open>success\<close>, a throwing step as \<open>error\<close>.
\<close>

theorem completion_status_when_logged_witness:
  "map c_status (completions (snd (withStepLogging env_online (Some ctx_fetch) secret_input
      (Inr failed_result) []))) = [StatusError] \<and>
   map c_status (completions (snd (withStepLogging env_online (Some ctx_fetch) secret_input
      (Inr ok_result) []))) = [StatusSuccess] \<and>
   map c_status (completions (snd (stepHandler env_online (\<lambda>v. Inl (ErrorObj ''boom'')) secret_input
      ctx_fetch []))) = [StatusError]"
  using completion_status_when_logged[of env_online "Some ctx_fetch" secret_input "[]"
          "Inr failed_result" ctx_fetch "\<lambda>v. Inl (ErrorObj ''boom'')"]
        completion_status_when_logged[of env_online "Some ctx_fetch" secret_input "[]"
          "Inr ok_result" ctx_fetch "\<lambda>v. Inl (ErrorObj ''boom'')"]
  by (simp add: env_online_def ctx_fetch_def failed_result_def ok_result_def secret_input_def
      logStepStart_def logStepStart_sh_def logStepStart_body_def js_or_def
      sends_completion_def recorded_status_def returned_output_def redact_mask_def)

text \<open>
  Claim C4 as stated fails where no log id was obtained: with no context (or no execution
  id) a step returning \<open>{success: false, error: "timeout"}\<close> is returned unchanged and no
  completion status is recorded, the guard \<open>if (!logInfo.logId) return\<close> being taken.
\<close>

theorem step_without_log_id_counterexample:
  "step_failed (Inr failed_result) \<and>
   withStepLogging env_online None secret_input (Inr failed_result) [] = (Inr failed_result, []) \<and>
   stepHandler env_online (\<lambda>v. Inr failed_result) secret_input
     (ctx_fetch\<lparr>executionId := None\<rparr>) [] = (Inr failed_result, [])"
  by (simp add: failed_result_def withStepLogging_def logStepStart_def fallback_info_def
      withStepLogging_body_def isErrorResult_def error_of_result_def js_or_def logStepComplete_def
      stepHandler_def stepHandler_body_def logStepStart_sh_def ctx_fetch_def)

text \<open>
  Claim C5. Whatever the network, the redaction and the log endpoint do, each wrapper
  returns exactly what the step logic returned or threw; \<open>logStepStart\<close> and
  \<open>logStepComplete\<close> never throw; and when no request gets an ok response with a parsed
  body, \<open>logStepStart\<close> returns the fallback: an empty log id and the current time.
\<close>

theorem logging_failure_never_propagates:
  "fst (withStepLogging E ctx inp stepLogic tr) = stepLogic \<and>
   fst (stepHandler E stepFn inp c tr) = stepFn inp \<and>
   (\<exists>info. fst (logStepStart E ctx inp tr) = Inr info) \<and>
   fst (logStepComplete E info st out err tr) = Inr () \<and>
   ((\<forall>req result. fetch E tr req \<noteq> FetchResponse True (Inr result)) \<longrightarrow>
      fst (logStepStart E ctx inp tr) = Inr (fallback_info E))"
proof -
  have a: "fst (withStepLogging E ctx inp stepLogic tr) = stepLogic" for ctx stepLogic
    using withStepLogging_char[of E ctx inp tr stepLogic] by auto
  have b: "\<exists>info. fst (logStepStart E ctx inp tr) = Inr info"
    using logStepStart_returns[of E ctx inp tr] by auto
  have c: "fst (logStepComplete E info st out err tr) = Inr ()"
    using logStepComplete_returns[of E info st out err tr] by auto
  show ?thesis
    using a[of ctx stepLogic] a[of "Some c" "stepFn inp"] b c logStepStart_fallback[of E tr ctx inp]
    by (simp add: stepHandler_eq)
qed

text \<open>With the log endpoint unreachable the step's result still comes back.\<close>

theorem logging_failure_never_propagates_witness:
  "fst (withStepLogging env_offline (Some ctx_fetch) (JObj [(''url'', JStr ''u'')])
          (Inr (JObj [(''success'', JBool True)])) []) = Inr (JObj [(''success'', JBool True)]) \<and>
   fst (logStepStart env_offline (Some ctx_fetch) (JObj [(''url'', JStr ''u'')]) []) =
     Inr \<lparr>logId = JStr [], startTime = JNum 1000\<rparr>"
  using logging_failure_never_propagates[of env_offline "Some ctx_fetch" "JObj [(''url'', JStr ''u'')]"
          "Inr (JObj [(''success'', JBool True)])" "[]"]
  by (simp add: env_offline_def fallback_info_def)

text \<open>
  Claim C6. Every request a wrapper sends carries, as its input or output snapshot, the
  value \<open>redactSensitiveData\<close> returned for the step's input or output.
\<close>

theorem logged_snapshots_are_redacted:
  "(\<forall>req\<in>set (drop (length tr) (snd (withStepLogging E ctx inp stepLogic tr))).
      is_redacted_request E inp (returned_output stepLogic) req) \<and>
   (\<forall>req\<in>set (drop (length tr) (snd (stepHandler E stepFn inp c tr))).
      is_redacted_request E inp (returned_output (stepFn inp)) req)"
proof -
  have a: "\<forall>req\<in>set (drop (length tr) (snd (withStepLogging E ctx inp stepLogic tr))).
      is_redacted_request E inp (returned_output stepLogic) req" for ctx stepLogic
    using withStepLogging_char[of E ctx inp tr stepLogic] by auto
  show ?thesis
    using a[of ctx stepLogic] a[of "Some c" "stepFn inp"] by (simp add: stepHandler_eq)
qed

text \<open>The two requests of a logged step, with the \<open>apiKey\<close> of the input masked.\<close>

theorem logged_snapshots_are_redacted_witness:
  "snd (withStepLogging env_online (Some ctx_fetch) secret_input (Inr ok_result) []) =
     [StartAction \<lparr>s_executionId = ''exec-1'', s_nodeId = ''n2'', s_nodeName = ''Fetch'',
                   s_nodeType = ''action'',
                   s_input = JObj [(''url'', JStr ''https://example.com''),
                                   (''apiKey'', JStr ''[REDACTED]'')]\<rparr>,
      CompleteAction \<lparr>c_logId = JStr ''log-1'', c_startTime = JNum 1000, c_status = StatusSuccess,
                      c_output = ok_result, c_error = JUndefined\<rparr>] \<and>
   is_redacted_request env_online secret_input ok_result
     (snd (withStepLogging env_online (Some ctx_fetch) secret_input (Inr ok_result) []) ! 0) \<and>
   is_redacted_request env_online secret_input ok_result
     (snd (withStepLogging env_online (Some ctx_fetch) secret_input (Inr ok_result) []) ! 1)"
proof -
  have tr: "snd (withStepLogging env_online (Some ctx_fetch) secret_input (Inr ok_result) []) =
     [StartAction \<lparr>s_executionId = ''exec-1'', s_nodeId = ''n2'', s_nodeName = ''Fetch'',
                   s_nodeType = ''action'',
                   s_input = JObj [(''url'', JStr ''https://example.com''),
                                   (''apiKey'', JStr ''[REDACTED]'')]\<rparr>,
      CompleteAction \<lparr>c_logId = JStr ''log-1'', c_startTime = JNum 1000, c_status = StatusSuccess,
                      c_output = ok_result, c_error = JUndefined\<rparr>]"
    by (simp add: env_online_def ctx_fetch_def ok_result_def secret_input_def redact_mask_def
        withStepLogging_def logStepStart_def logStepStart_body_def js_or_def
        withStepLogging_body_def isErrorResult_def logStepComplete_def logStepComplete_body_def)
  show ?thesis
    using logged_snapshots_are_redacted[of "[]" env_online "Some ctx_fetch" secret_input
            "Inr ok_result" "\<lambda>v. Inr ok_result" ctx_fetch]
    by (simp add: tr returned_output_def)
qed

section \<open>Integration credentials: results\<close>

lemma set_set_in_order: "set (set_in_order xs) = set xs"
  by (induction xs rule: set_in_order.induct) auto

lemma distinct_set_in_order: "distinct (set_in_order xs)"
  by (induction xs rule: set_in_order.induct) (auto simp: set_set_in_order)

lemma set_collect_ids:
  "set (collect_ids nodes) = {s. s \<noteq> [] \<and> (\<exists>n\<in>set nodes. node_integrationId n = JStr s)}"
  by (induction nodes) (auto split: jsval.splits)

lemma set_extractIntegrationIds:
  "set (extractIntegrationIds nodes) =
     {s. s \<noteq> [] \<and> (\<exists>n\<in>set nodes. node_integrationId n = JStr s)}"
  by (simp add: extractIntegrationIds_def set_set_in_order set_collect_ids)

text \<open>
  Claim C10. \<open>validateWorkflowIntegrations\<close> answers \<open>valid: false\<close> exactly when some
  integration id extracted from the nodes is stored under another user, or the ownership
  query is issued (there is an id to ask about) and fails. In the first case, the query
  having succeeded, \<open>invalidIds\<close> lists those ids; otherwise it is absent. The extracted ids
  are the non-empty strings found at \<open>data.config.integrationId\<close>; an id that is not in the
  store is matched by no row, so it cannot make the workflow invalid.
\<close>

theorem validateWorkflowIntegrations_spec:
  "(valid (validateWorkflowIntegrations db nodes userId) = False \<longleftrightarrow>
      foreign_rows db (extractIntegrationIds nodes) userId \<noteq> [] \<or>
      (extractIntegrationIds nodes \<noteq> [] \<and> db_error db \<noteq> None)) \<and>
   invalidIds (validateWorkflowIntegrations db nodes userId) =
     (if db_error db = None \<and> foreign_rows db (extractIntegrationIds nodes) userId \<noteq> []
      then Some (map i_id (foreign_rows db (extractIntegrationIds nodes) userId)) else None) \<and>
   set (extractIntegrationIds nodes) =
     {s. s \<noteq> [] \<and> (\<exists>n\<in>set nodes. node_integrationId n = JStr s)}"
proof -
  have v: "valid (validateWorkflowIntegrations db nodes userId) = False \<longleftrightarrow>
      foreign_rows db (extractIntegrationIds nodes) userId \<noteq> [] \<or>
      (extractIntegrationIds nodes \<noteq> [] \<and> db_error db \<noteq> None)"
    by (cases "db_error db")
       (auto simp: validateWorkflowIntegrations_def select_where_def Let_def foreign_rows_def)
  have i: "invalidIds (validateWorkflowIntegrations db nodes userId) =
     (if db_error db = None \<and> foreign_rows db (extractIntegrationIds nodes) userId \<noteq> []
      then Some (map i_id (foreign_rows db (extractIntegrationIds nodes) userId)) else None)"
    by (cases "db_error db")
       (auto simp: validateWorkflowIntegrations_def select_where_def Let_def foreign_rows_def)
  show ?thesis
    using v i set_extractIntegrationIds[of nodes] by blast
qed

lemma hex_digits_table:
  "list_all (\<lambda>n. hex_value (hex_digit n) = Some n \<and> hex_digit n \<noteq> CHR '':'') [0..<16]"
  by code_simp

lemma hex_value_hex_digit: "n < 16 \<Longrightarrow> hex_value (hex_digit n) = Some n"
  using hex_digits_table by (simp add: list_all_iff)

lemma hex_digit_not_colon: "hex_digit n \<noteq> CHR '':''"
proof -
  have "hex_digit n = hex_digit (n mod 16)"
    by (simp add: hex_digit_def)
  moreover have "hex_digit (n mod 16) \<noteq> CHR '':''"
    using hex_digits_table by (simp add: list_all_iff)
  ultimately show ?thesis by simp
qed

lemma hex_decode_encode: "hex_decode (hex_encode bs) = bs"
proof (induction bs)
  case Nil
  show ?case by (simp add: hex_encode_def)
next
  case (Cons b bs)
  have d: "unat b div 16 < 16"
    using unsigned_less[of b, where 'a = nat] by (simp add: less_mult_imp_div_less)
  have m: "unat b mod 16 < 16" by simp
  from Cons show ?case
    using hex_value_hex_digit[OF d] hex_value_hex_digit[OF m]
    by (simp add: hex_encode_def del: of_nat_add of_nat_mult)
qed

lemma colon_notin_hex_encode: "CHR '':'' \<notin> set (hex_encode bs)"
  by (induction bs) (auto simp: hex_encode_def hex_digit_not_colon hex_digit_not_colon[symmetric])

lemma split_on_no_sep: "sep \<notin> set a \<Longrightarrow> split_on sep a = [a]"
  by (induction a) auto

lemma split_on_append: "sep \<notin> set a \<Longrightarrow> split_on sep (a @ sep # rest) = a # split_on sep rest"
  by (induction a) auto

lemma split_envelope:
  "split_on CHR '':'' (hex_encode a @ '':'' @ hex_encode b @ '':'' @ hex_encode c) =
     [hex_encode a, hex_encode b, hex_encode c]"
  using split_on_append[OF colon_notin_hex_encode, of a]
        split_on_append[OF colon_notin_hex_encode, of b]
        split_on_no_sep[OF colon_notin_hex_encode, of c]
  by simp

lemma decode_two_bytes:
  assumes "2 \<le> q" "q \<le> 31" "r < 64"
  shows "decode_utf8 ((192 + q) # (128 + r) # rest) = (q * 64 + r) # decode_utf8 rest"
  using assms by (simp add: continuation_def)

lemma decode_three_bytes:
  assumes "q \<le> 15" "m < 64" "r < 64" "q = 0 \<longrightarrow> 32 \<le> m" "q = 13 \<longrightarrow> m \<le> 31"
  shows "decode_utf8 ((224 + q) # (128 + m) # (128 + r) # rest) =
           (q * 4096 + m * 64 + r) # decode_utf8 rest"
  using assms by (simp add: continuation_def lower_bound_def upper_bound_def)

lemma decode_four_bytes:
  assumes "q \<le> 4" "m < 64" "n < 64" "r < 64" "q = 0 \<longrightarrow> 16 \<le> m" "q = 4 \<longrightarrow> m \<le> 15"
  shows "decode_utf8 ((240 + q) # (128 + m) # (128 + n) # (128 + r) # rest) =
           (q * 262144 + m * 4096 + n * 64 + r) # decode_utf8 rest"
  using assms by (simp add: continuation_def lower_bound_def upper_bound_def)

lemma div64_less: "(n::nat) < k * 64 \<Longrightarrow> n div 64 < k"
  by (simp add: less_mult_imp_div_less)

lemma div64_ge: "k * 64 \<le> (n::nat) \<Longrightarrow> k \<le> n div 64"
  by (simp add: less_eq_div_iff_mult_less_eq)

lemma decode_encode_code_point:
  assumes "scalar cp"
  shows "decode_utf8 (encode_code_point cp @ rest) = cp # decode_utf8 rest"
proof -
  define d r where "d = cp div 64" and "r = cp mod 64"
  define e m where "e = d div 64" and "m = d mod 64"
  define q n where "q = e div 64" and "n = e mod 64"
  have r: "r < 64" "cp = d * 64 + r" by (simp_all add: d_def r_def)
  have m: "m < 64" "d = e * 64 + m" by (simp_all add: e_def m_def)
  have n: "n < 64" "e = q * 64 + n" by (simp_all add: q_def n_def)
  have e4096: "cp div 4096 = e"
    using div_mult2_eq[of cp 64 64] by (simp add: e_def d_def)
  have q262144: "cp div 262144 = q"
    using div_mult2_eq[of cp 4096 64] e4096 by (simp add: q_def)
  have top: "cp < 1114112" using assms by (auto simp: scalar_def)
  consider "cp < 128" | "128 \<le> cp" "cp < 2048" | "2048 \<le> cp" "cp < 65536" | "65536 \<le> cp"
    by linarith
  then show ?thesis
  proof cases
    case 1
    then show ?thesis by (simp add: encode_code_point_def)
  next
    case 2
    have "2 \<le> d" using div64_ge[of 2 cp] 2 by (simp add: d_def)
    moreover have "d < 32" using div64_less[of cp 32] 2 by (simp add: d_def)
    ultimately have f: "2 \<le> d" "d \<le> 31" by simp_all
    have "encode_code_point cp = [192 + d, 128 + r]"
      using 2 by (simp add: encode_code_point_def d_def r_def)
    then show ?thesis using decode_two_bytes[OF f r(1), of rest] r(2) by simp
  next
    case 3
    have lo: "32 \<le> d" using div64_ge[of 32 cp] 3 by (simp add: d_def)
    have hi: "d < 1024" using div64_less[of cp 1024] 3 by (simp add: d_def)
    have sur: "d < 864 \<or> 896 \<le> d"
      using assms div64_less[of cp 864] div64_ge[of 896 cp] by (auto simp: scalar_def d_def)
    have f: "e \<le> 15" "e = 0 \<longrightarrow> 32 \<le> m" "e = 13 \<longrightarrow> m \<le> 31"
      using lo hi sur m by linarith+
    have c: "e * 4096 + m * 64 + r = cp"
      using r(2) m(2) by simp
    have "encode_code_point cp = [224 + e, 128 + m, 128 + r]"
      using 3 e4096 by (simp add: encode_code_point_def m_def d_def r_def)
    then show ?thesis
      using decode_three_bytes[OF f(1) m(1) r(1) f(2) f(3), of rest] c by simp
  next
    case 4
    have lo: "1024 \<le> d" using div64_ge[of 1024 cp] 4 by (simp add: d_def)
    have hi: "d < 17408" using div64_less[of cp 17408] top by (simp add: d_def)
    have lo': "16 \<le> e" using div64_ge[of 16 d] lo by (simp add: e_def)
    have hi': "e < 272" using div64_less[of d 272] hi by (simp add: e_def)
    have f: "q \<le> 4" "q = 0 \<longrightarrow> 16 \<le> n" "q = 4 \<longrightarrow> n \<le> 15"
      using lo' hi' n by linarith+
    have c: "q * 262144 + n * 4096 + m * 64 + r = cp"
      using r(2) m(2) n(2) by simp
    have "encode_code_point cp = [240 + q, 128 + n, 128 + m, 128 + r]"
      using 4 e4096 q262144 by (simp add: encode_code_point_def n_def m_def d_def r_def)
    then show ?thesis
      using decode_four_bytes[OF f(1) n(1) m(1) r(1) f(2) f(3), of rest] c by simp
  qed
qed

lemma decode_encode_code_points:
  "\<forall>cp\<in>set cps. scalar cp \<Longrightarrow> decode_utf8 (concat (map encode_code_point cps)) = cps"
  by (induction cps) (simp_all add: decode_encode_code_point)

lemma encode_code_point_bytes:
  "cp < 1114112 \<Longrightarrow> \<forall>b\<in>set (encode_code_point cp). b < 256"
  by (auto simp: encode_code_point_def)

lemma code_points_wf:
  assumes "well_formed_units us" and "\<forall>u\<in>set us. u < 65536"
  shows "(\<forall>cp\<in>set (code_points us). scalar cp) \<and> concat (map code_units (code_points us)) = us"
  using assms
proof (induction us rule: code_points.induct)
  case 1
  show ?case by simp
next
  case (2 u)
  then show ?case by (auto simp: scalar_def is_high_def is_low_def code_units_def)
next
  case (3 u v rest)
  show ?case
  proof (cases "is_high u")
    case True
    then have lv: "is_low v" and wf: "well_formed_units rest" using "3.prems"(1) by simp_all
    have ih: "(\<forall>cp\<in>set (code_points rest). scalar cp) \<and>
              concat (map code_units (code_points rest)) = rest"
      using "3.IH"(1) True lv wf "3.prems"(2) by simp
    let ?cp = "65536 + (u - 55296) * 1024 + (v - 56320)"
    have b: "55296 \<le> u" "u \<le> 56319" "56320 \<le> v" "v \<le> 57343"
      using True lv by (simp_all add: is_high_def is_low_def)
    have s: "scalar ?cp" using b by (simp add: scalar_def)
    have "?cp - 65536 = (u - 55296) * 1024 + (v - 56320)" "v - 56320 < 1024"
      using b by simp_all
    then have "(?cp - 65536) div 1024 = u - 55296" "(?cp - 65536) mod 1024 = v - 56320"
      by simp_all
    then have cu: "code_units ?cp = [u, v]" using b by (simp add: code_units_def)
    show ?thesis using True lv ih s cu by simp
  next
    case False
    then have nl: "\<not> is_low u" and wf: "well_formed_units (v # rest)" using "3.prems"(1) by simp_all
    have ih: "(\<forall>cp\<in>set (code_points (v # rest)). scalar cp) \<and>
              concat (map code_units (code_points (v # rest))) = v # rest"
      using "3.IH"(2) False wf "3.prems"(2) by simp
    have "scalar u" "code_units u = [u]"
      using False nl "3.prems"(2) by (auto simp: scalar_def is_high_def is_low_def code_units_def)
    then show ?thesis using False nl ih by simp
  qed
qed

lemma code_points_bound:
  "\<forall>u\<in>set us. u < 65536 \<Longrightarrow> \<forall>cp\<in>set (code_points us). cp < 1114112"
  by (induction us rule: code_points.induct) (auto simp: is_high_def is_low_def)

lemma unat_of_nat_bytes:
  "\<forall>b\<in>set xs. b < 256 \<Longrightarrow> map unat (map of_nat xs :: 8 word list) = xs"
  by (induction xs) (simp_all add: unat_of_nat)

lemma utf8_string_bytes:
  assumes "well_formed s"
  shows "utf8_string (utf8_bytes s) = s"
proof -
  let ?us = "map unat s"
  have bound: "\<forall>u\<in>set ?us. u < 65536"
    using unsigned_less[where 'a = nat and 'b = 16] by auto
  have wf: "(\<forall>cp\<in>set (code_points ?us). scalar cp) \<and>
            concat (map code_units (code_points ?us)) = ?us"
    using code_points_wf[OF assms[unfolded well_formed_def] bound] .
  have "\<forall>b\<in>set (concat (map encode_code_point (code_points ?us))). b < 256"
    using code_points_bound[OF bound] encode_code_point_bytes by auto
  then have "map unat (utf8_bytes s) = concat (map encode_code_point (code_points ?us))"
    unfolding utf8_bytes_def by (rule unat_of_nat_bytes)
  then have "decode_utf8 (map unat (utf8_bytes s)) = code_points ?us"
    using wf decode_encode_code_points by simp
  then have "utf8_string (utf8_bytes s) = map of_nat ?us"
    using wf by (simp add: utf8_string_def)
  then show ?thesis by (simp add: comp_def)
qed

lemma length_hex_encode: "length (hex_encode bs) = 2 * length bs"
  by (induction bs) (simp_all add: hex_encode_def)

lemma length_hex_decode: "is_hex_string s \<Longrightarrow> length (hex_decode s) = length s div 2"
  by (induction s rule: hex_decode.induct) (auto simp: is_hex_string_def)

text \<open>
  Claim C8, as amended. With a key of 64 hex digits in the environment, and AES-256-GCM
  doing what it promises, \<open>encrypt\<close> succeeds for every plaintext and every 16-byte nonce,
  and the ciphertext splits at the colons into exactly three parts; for every plaintext
  without unpaired surrogates \<open>decrypt\<close> gives the plaintext back.
\<close>

theorem decrypt_encrypt:
  assumes "gcm_correct L"
    and "length keyHex = 64" and "is_hex_string keyHex"
    and "length iv = IV_LENGTH"
  shows "\<exists>c. encrypt L (Some keyHex) iv p = Inr c \<and> length (split_on CHR '':'' c) = 3 \<and>
             decrypt L (Some keyHex) c = Inr (utf8_string (utf8_bytes p)) \<and>
             (well_formed p \<longrightarrow> decrypt L (Some keyHex) c = Inr p)"
proof -
  have key: "getEncryptionKey (Some keyHex) = Inr (hex_decode keyHex)"
    using assms(2) by (auto simp: getEncryptionKey_def)
  have len: "length (hex_decode keyHex) = 32"
    using length_hex_decode[OF assms(3)] assms(2) by simp
  obtain ct tag where g: "cipher_gcm L (hex_decode keyHex) iv (utf8_bytes p) = Inr (ct, tag)"
    "decipher_init L (hex_decode keyHex) iv tag = None"
    "decipher_gcm L (hex_decode keyHex) iv tag ct = Inr (utf8_bytes p)"
    using assms(1) assms(4) len unfolding gcm_correct_def IV_LENGTH_def by blast
  have e: "encrypt L (Some keyHex) iv p =
             Inr (hex_encode iv @ '':'' @ hex_encode tag @ '':'' @ hex_encode ct)"
    using key g(1) by (simp add: encrypt_def)
  have ev: "even (length (hex_encode ct))"
    by (simp add: length_hex_encode)
  have d: "decrypt L (Some keyHex) (hex_encode iv @ '':'' @ hex_encode tag @ '':'' @ hex_encode ct) =
             Inr (utf8_string (utf8_bytes p))"
    using key g(2) g(3) ev by (simp add: decrypt_def split_envelope[simplified] hex_decode_encode)
  show ?thesis
    using e d split_envelope[of iv tag ct] utf8_string_bytes[of p] by simp
qed

text \<open>
  The hypotheses hold for the stand-in library, a key of 64 hex digits and the plaintext
  \<open>{}\<close>.
\<close>

theorem decrypt_encrypt_witness:
  "gcm_correct toy_lib \<and> length key_hex = 64 \<and> is_hex_string key_hex \<and>
   length iv_zero = IV_LENGTH \<and> well_formed (js ''{}'') \<and>
   (\<exists>c. encrypt toy_lib (Some key_hex) iv_zero (js ''{}'') = Inr c \<and>
        decrypt toy_lib (Some key_hex) c = Inr (js ''{}'') \<and>
        length (split_on CHR '':'' c) = 3)"
proof -
  have g: "gcm_correct toy_lib"
    by (simp add: gcm_correct_def toy_lib_def)
  have l: "length key_hex = 64"
    by (simp add: key_hex_def)
  have h: "is_hex_string key_hex"
    by (simp add: key_hex_def is_hex_string_def hex_value_def)
  have i: "length iv_zero = IV_LENGTH"
    by (simp add: iv_zero_def IV_LENGTH_def)
  have w: "well_formed (js ''{}'')"
    by (simp add: well_formed_def js_def is_high_def is_low_def)
  show ?thesis
    using g l h i w decrypt_encrypt[OF g l h i, of "js ''{}''"] by auto
qed

text \<open>
  Claim C8 as stated fails for a plaintext with an unpaired surrogate: the UTF-8 encoder
  replaces it, so the string of the single code unit \<open>D800\<close> is encrypted as \<open>U+FFFD\<close> and
  comes back from \<open>decrypt\<close> as \<open>U+FFFD\<close>, whatever the cipher.
\<close>

theorem lone_surrogate_counterexample:
  "gcm_correct toy_lib \<and> length key_hex = 64 \<and> is_hex_string key_hex \<and>
   length iv_zero = IV_LENGTH \<and>
   encrypt toy_lib (Some key_hex) iv_zero lone_surrogate = Inr lone_surrogate_sealed \<and>
   decrypt toy_lib (Some key_hex) lone_surrogate_sealed = Inr [65533] \<and>
   lone_surrogate = [55296]"
proof -
  have g: "gcm_correct toy_lib"
    by (simp add: gcm_correct_def toy_lib_def)
  have l: "length key_hex = 64"
    by (simp add: key_hex_def)
  have h: "is_hex_string key_hex"
    by (simp add: key_hex_def is_hex_string_def hex_value_def)
  have i: "length iv_zero = IV_LENGTH"
    by (simp add: iv_zero_def IV_LENGTH_def)
  have key: "getEncryptionKey (Some key_hex) = Inr (hex_decode key_hex)"
    using l by (auto simp: getEncryptionKey_def)
  have k: "length (hex_decode key_hex) = 32"
    using length_hex_decode[OF h] l by simp
  have ub: "utf8_bytes lone_surrogate = [239, 191, 189]"
    by (simp add: utf8_bytes_def lone_surrogate_def is_high_def is_low_def encode_code_point_def)
  have us': "utf8_string [239, 191, 189] = [65533]"
    by (simp add: utf8_string_def lower_bound_def upper_bound_def continuation_def code_units_def)
  have e: "encrypt toy_lib (Some key_hex) iv_zero lone_surrogate = Inr lone_surrogate_sealed"
    using key k ub by (simp add: encrypt_def toy_lib_def lone_surrogate_sealed_def)
  have ev: "even (length (hex_encode [189, 191, 239]))"
    by (simp add: length_hex_encode)
  have d: "decrypt toy_lib (Some key_hex) lone_surrogate_sealed = Inr [65533]"
    using key k ev us'
    by (simp add: decrypt_def lone_surrogate_sealed_def split_envelope[simplified]
        hex_decode_encode toy_lib_def)
  show ?thesis
    using g l h i e d by (simp add: lone_surrogate_def)
qed










text \<open>
  A workflow of the first user naming her own integration, the second user's and a deleted
  one is invalid because of the second user's id alone; without that id it is valid, the
  stale id notwithstanding.
\<close>

theorem validateWorkflowIntegrations_spec_witness:
  "valid (validateWorkflowIntegrations db_demo
            [node_with ''int-1'', node_with ''int-2'', node_with ''int-gone'', \<lparr>data = None\<rparr>]
            ''alice'') = False \<and>
   invalidIds (validateWorkflowIntegrations db_demo
            [node_with ''int-1'', node_with ''int-2'', node_with ''int-gone'', \<lparr>data = None\<rparr>]
            ''alice'') = Some [''int-2''] \<and>
   valid (validateWorkflowIntegrations db_demo [node_with ''int-1'', node_with ''int-gone'']
            ''alice'') = True"
proof -
  have e1: "extractIntegrationIds
              [node_with ''int-1'', node_with ''int-2'', node_with ''int-gone'', \<lparr>data = None\<rparr>] =
            [''int-1'', ''int-2'', ''int-gone'']"
    by (simp add: extractIntegrationIds_def node_with_def node_integrationId_def)
  have e2: "extractIntegrationIds [node_with ''int-1'', node_with ''int-gone''] =
            [''int-1'', ''int-gone'']"
    by (simp add: extractIntegrationIds_def node_with_def node_integrationId_def)
  have f1: "foreign_rows db_demo [''int-1'', ''int-2'', ''int-gone''] ''alice'' = [row_bob]"
    by (simp add: foreign_rows_def db_demo_def row_alice_def row_bob_def)
  have f2: "foreign_rows db_demo [''int-1'', ''int-gone''] ''alice'' = []"
    by (simp add: foreign_rows_def db_demo_def row_alice_def row_bob_def)
  have d: "db_error db_demo = None" "i_id row_bob = ''int-2''"
    by (simp_all add: db_demo_def row_bob_def)
  show ?thesis
    using validateWorkflowIntegrations_spec[of db_demo
            "[node_with ''int-1'', node_with ''int-2'', node_with ''int-gone'', \<lparr>data = None\<rparr>]"
            "''alice''"]
          validateWorkflowIntegrations_spec[of db_demo
            "[node_with ''int-1'', node_with ''int-gone'']" "''alice''"]
    unfolding e1 e2 f1 f2 using d by simp
qed

section \<open>Server-side workflow logging: results\<close>

lemma running_rows_start:
  "length (running_rows eid nid (snd (logStepStartDb clk new_id params db))) \<le>
     length (running_rows eid nid db) +
       (if p_executionId params = eid \<and> p_nodeId params = nid then 1 else 0)"
  by (auto simp: logStepStartDb_def insert_log_def running_rows_def split: option.splits)

lemma status_text_not_running: "status_text s \<noteq> ''running''"
  by (cases s) (simp_all add: status_text_def)

lemma running_rows_complete:
  "length (running_rows eid nid (snd (logStepCompleteDb clk params db))) \<le>
     length (running_rows eid nid db)"
proof (cases "log_db_error db")
  case (Some m)
  then show ?thesis by (simp add: logStepCompleteDb_def update_log_def Let_def)
next
  case None
  have "length (filter P (map (\<lambda>r. if l_id r = lid then f r else r) rs)) \<le> length (filter Q rs)"
    if "\<And>r. P (f r) = False" "\<And>r. P r \<Longrightarrow> Q r" for P Q :: "log_row \<Rightarrow> bool" and f lid rs
    using that by (induction rs) auto
  then show ?thesis
    using None status_text_not_running
    by (simp add: logStepCompleteDb_def update_log_def Let_def running_rows_def)
qed

lemma running_rows_calls:
  "length (running_rows eid nid (run_calls cs db)) \<le>
     length (running_rows eid nid db) + length (starts_of eid nid cs)"
proof (induction cs arbitrary: db)
  case Nil
  show ?case by (simp add: starts_of_def)
next
  case (Cons c cs)
  show ?case
  proof (cases c)
    case (CallStart clk new_id params)
    then show ?thesis
      using Cons[of "run_call c db"] running_rows_start[of eid nid clk new_id params db]
      by (simp add: starts_of_def split: if_splits)
  next
    case (CallComplete clk params)
    then show ?thesis
      using Cons[of "run_call c db"] running_rows_complete[of eid nid clk params db]
      by (simp add: starts_of_def)
  qed
qed

lemma logStepStartDb_row:
  assumes "logStepStartDb clk new_id params db = (Inr res, db')"
  shows "\<exists>row. logs db' = logs db @ [row] \<and> l_status row = ''running'' \<and>
           l_id row = r_logId res \<and> l_execution_id row = p_executionId params \<and>
           l_node_id row = p_nodeId params \<and> l_completed_at row = None"
  using assms
  by (auto simp: logStepStartDb_def insert_log_def split: option.splits if_splits)

lemma logStepCompleteDb_rows:
  assumes "logStepCompleteDb clk cp db = (Inr (), db')"
  shows "length (logs db') = length (logs db) \<and>
         (\<forall>i<length (logs db).
            if l_id (logs db ! i) = q_logId cp
            then l_id (logs db' ! i) = q_logId cp \<and>
                 l_status (logs db' ! i) = status_text (q_status cp) \<and>
                 l_status (logs db' ! i) \<noteq> ''running'' \<and>
                 l_completed_at (logs db' ! i) = Some (now_iso clk) \<and>
                 l_duration (logs db' ! i) = Some (string_of_int (now_ms clk - q_startTime cp))
            else logs db' ! i = logs db ! i)"
  using assms status_text_not_running[of "q_status cp"]
  by (auto simp: logStepCompleteDb_def update_log_def Let_def split: option.splits)

text \<open>
  Claim C7, as amended. A successful \<open>logStepStartDb\<close> appends one row, in status
  \<open>running\<close>, for the execution and node of its parameters, and returns that row's id. A
  successful \<open>logStepCompleteDb\<close> gives every row with the given id the given terminal
  status (\<open>success\<close> or \<open>error\<close>, never \<open>running\<close>), the completion time and the
  duration, and leaves every other row as it was. Over any sequence of calls the number of
  running rows of an (execution, node) pair grows by at most the number of
  \<open>logStepStartDb\<close> calls for that pair; so, from an empty table, a pair started at most
  once has at most one running row.
\<close>

theorem log_rows_running_then_terminal:
  "(logStepStartDb clk new_id params db = (Inr res, db1) \<longrightarrow>
      (\<exists>row. logs db1 = logs db @ [row] \<and> l_status row = ''running'' \<and>
           l_id row = r_logId res \<and> l_execution_id row = p_executionId params \<and>
           l_node_id row = p_nodeId params \<and> l_completed_at row = None)) \<and>
   (logStepCompleteDb clk cp db = (Inr (), db2) \<longrightarrow>
      length (logs db2) = length (logs db) \<and>
      (\<forall>i<length (logs db).
         if l_id (logs db ! i) = q_logId cp
         then l_id (logs db2 ! i) = q_logId cp \<and>
              l_status (logs db2 ! i) = status_text (q_status cp) \<and>
              l_status (logs db2 ! i) \<noteq> ''running'' \<and>
              l_completed_at (logs db2 ! i) = Some (now_iso clk) \<and>
              l_duration (logs db2 ! i) = Some (string_of_int (now_ms clk - q_startTime cp))
         else logs db2 ! i = logs db ! i)) \<and>
   length (running_rows eid nid (run_calls cs db)) \<le>
     length (running_rows eid nid db) + length (starts_of eid nid cs) \<and>
   (length (starts_of eid nid cs) \<le> 1 \<longrightarrow>
      length (running_rows eid nid (run_calls cs empty_log_db)) \<le> 1)"
proof -
  have e: "length (running_rows eid nid (run_calls cs empty_log_db)) \<le> length (starts_of eid nid cs)"
    using running_rows_calls[of eid nid cs empty_log_db]
    by (simp add: running_rows_def empty_log_db_def)
  show ?thesis
    using logStepStartDb_row[of clk new_id params db res db1]
          logStepCompleteDb_rows[of clk cp db db2]
          running_rows_calls[of eid nid cs db] e
    by (intro conjI impI; simp)
qed

text \<open>
  One start and one completion for a node: the row is \<open>running\<close>, then \<open>success\<close> with
  a duration of 250 ms.
\<close>

theorem log_rows_running_then_terminal_witness:
  "logStepStartDb clock_demo ''log-1'' start_fetch empty_log_db =
     (Inr \<lparr>r_logId = ''log-1'', r_startTime = 1700000000250\<rparr>,
      run_calls [CallStart clock_demo ''log-1'' start_fetch] empty_log_db) \<and>
   map l_status (logs (run_calls [CallStart clock_demo ''log-1'' start_fetch] empty_log_db)) =
     [''running''] \<and>
   length (starts_of ''exec-1'' ''n2'' [CallStart clock_demo ''log-1'' start_fetch,
      CallComplete clock_demo (complete_log ''log-1'' StatusSuccess)]) \<le> 1 \<and>
   length (running_rows ''exec-1'' ''n2''
     (run_calls [CallStart clock_demo ''log-1'' start_fetch,
                 CallComplete clock_demo (complete_log ''log-1'' StatusSuccess)] empty_log_db)) \<le> 1 \<and>
   map (\<lambda>r. (l_status r, l_duration r))
     (logs (run_calls [CallStart clock_demo ''log-1'' start_fetch,
                 CallComplete clock_demo (complete_log ''log-1'' StatusSuccess)] empty_log_db)) =
     [(''success'', Some ''250'')]"
proof -
  have s: "length (starts_of ''exec-1'' ''n2'' [CallStart clock_demo ''log-1'' start_fetch,
      CallComplete clock_demo (complete_log ''log-1'' StatusSuccess)]) \<le> 1"
    by (simp add: starts_of_def start_fetch_def)
  have d: "string_of_int 250 = ''250''"
    by (simp add: string_of_int_def string_of_nat.simps digit_char_def)
  show ?thesis
    using s log_rows_running_then_terminal[of clock_demo "''log-1''" start_fetch empty_log_db
            "\<lparr>r_logId = ''log-1'', r_startTime = 1700000000250\<rparr>"
            "run_calls [CallStart clock_demo ''log-1'' start_fetch] empty_log_db"
            "complete_log ''log-1'' StatusSuccess" empty_log_db "''exec-1''" "''n2''"
            "[CallStart clock_demo ''log-1'' start_fetch,
              CallComplete clock_demo (complete_log ''log-1'' StatusSuccess)]"]
    by (simp add: logStepStartDb_def logStepCompleteDb_def insert_log_def update_log_def
        empty_log_db_def clock_demo_def start_fetch_def complete_log_def status_text_def d)
qed

text \<open>
  Claim C7 as stated fails: nothing in the two functions keeps a pair from being started
  twice, or a row from being completed twice. Two calls of \<open>logStepStartDb\<close> with the same
  execution and node leave two rows in status \<open>running\<close>; a second \<open>logStepCompleteDb\<close>
  for the same log id overwrites the terminal status \<open>success\<close> with \<open>error\<close>.
\<close>

theorem two_running_rows_counterexample:
  "length (running_rows ''exec-1'' ''n2''
     (run_calls [CallStart clock_demo ''log-1'' start_fetch,
                 CallStart clock_demo ''log-2'' start_fetch] empty_log_db)) = 2 \<and>
   map l_status
     (logs (run_calls [CallStart clock_demo ''log-1'' start_fetch,
                       CallComplete clock_demo (complete_log ''log-1'' StatusSuccess)]
              empty_log_db)) = [''success''] \<and>
   map l_status
     (logs (run_calls [CallStart clock_demo ''log-1'' start_fetch,
                       CallComplete clock_demo (complete_log ''log-1'' StatusSuccess),
                       CallComplete clock_demo (complete_log ''log-1'' StatusError)]
              empty_log_db)) = [''error'']"
  by (simp add: logStepStartDb_def logStepCompleteDb_def insert_log_def update_log_def
      empty_log_db_def clock_demo_def start_fetch_def complete_log_def status_text_def
      running_rows_def)

section \<open>Workflow graph execution: results\<close>

text \<open>
  A set of ids, each the target of an edge from the set, is never eliminated.
\<close>

lemma kahn_stuck:
  assumes "C \<noteq> {}"
    and "C \<subseteq> n_id ` set ns"
    and "\<forall>c\<in>C. \<exists>e\<in>set es. e_target e = c \<and> e_source e \<in> C"
  shows "kahn ns es = None"
  using assms
proof (induction ns es rule: kahn.induct)
  case (1 ns es)
  have ne: "ns \<noteq> []" using "1.prems"(1,2) by auto
  show ?case
  proof (cases "find (\<lambda>n. in_degree es n = 0) ns")
    case None
    then show ?thesis using ne by (simp add: kahn.simps)
  next
    case (Some n)
    then have n: "n \<in> set ns" "in_degree es n = 0"
      by (auto simp: find_Some_iff)
    have notC: "n_id n \<notin> C"
    proof
      assume "n_id n \<in> C"
      then obtain e where "e \<in> set es" "e_target e = n_id n"
        using "1.prems"(3) by blast
      then have "filter (\<lambda>e. e_target e = n_id n) es \<noteq> []"
        by (auto simp: filter_empty_conv)
      then show False using n(2) by (simp add: in_degree_def)
    qed
    have sub: "C \<subseteq> n_id ` set (remove1 n ns)"
    proof
      fix c assume c: "c \<in> C"
      then obtain m where m: "m \<in> set ns" "n_id m = c" using "1.prems"(2) by auto
      then have "m \<noteq> n" using notC c by auto
      then have "m \<in> set (remove1 n ns)" using m(1) by simp
      then show "c \<in> n_id ` set (remove1 n ns)" using m(2) by auto
    qed
    have edges: "\<forall>c\<in>C. \<exists>e\<in>set (filter (\<lambda>e. e_source e \<noteq> n_id n) es). e_target e = c \<and> e_source e \<in> C"
      using "1.prems"(3) notC by fastforce
    have "kahn (remove1 n ns) (filter (\<lambda>e. e_source e \<noteq> n_id n) es) = None"
      using "1.IH"[OF ne Some "1.prems"(1) sub edges] .
    then show ?thesis using ne Some by (simp add: kahn.simps)
  qed
qed

lemma is_walk_edges:
  "is_walk es w \<Longrightarrow> i + 1 < length w \<Longrightarrow> \<exists>e\<in>set es. e_source e = w ! i \<and> e_target e = w ! (i + 1)"
proof (induction es w arbitrary: i rule: is_walk.induct)
  case (3 es a b rest)
  show ?case
  proof (cases i)
    case 0
    then show ?thesis using "3.prems" by simp
  next
    case (Suc j)
    then show ?thesis using "3.IH"[of j] "3.prems" by simp
  qed
qed simp_all

lemma cycle_predecessor:
  assumes "is_cycle es cyc" and "c \<in> set cyc"
  shows "\<exists>e\<in>set es. e_target e = c \<and> e_source e \<in> set cyc"
proof -
  from assms(2) obtain i where i: "i < length cyc" "cyc ! i = c"
    by (auto simp: in_set_conv_nth)
  have w: "is_walk es (cyc @ [hd cyc])" and ne: "cyc \<noteq> []"
    using assms(1) by (simp_all add: is_cycle_def)
  show ?thesis
  proof (cases i)
    case 0
    then have c0: "c = hd cyc" using i ne by (simp add: hd_conv_nth)
    have "length cyc - 1 + 1 < length (cyc @ [hd cyc])" using ne by simp
    from is_walk_edges[OF w this] obtain e where e: "e \<in> set es"
      "e_source e = (cyc @ [hd cyc]) ! (length cyc - 1)"
      "e_target e = (cyc @ [hd cyc]) ! (length cyc - 1 + 1)" by blast
    have "e_source e \<in> set cyc" using e(2) ne by (simp add: nth_append)
    moreover have "e_target e = c" using e(3) ne c0 by (simp add: nth_append)
    ultimately show ?thesis using e(1) by blast
  next
    case (Suc j)
    have "j + 1 < length (cyc @ [hd cyc])" using Suc i by simp
    from is_walk_edges[OF w this] obtain e where e: "e \<in> set es"
      "e_source e = (cyc @ [hd cyc]) ! j" "e_target e = (cyc @ [hd cyc]) ! (j + 1)" by blast
    have "e_source e \<in> set cyc" using e(2) Suc i by (simp add: nth_append)
    moreover have "e_target e = c" using e(3) Suc i by (simp add: nth_append)
    ultimately show ?thesis using e(1) by blast
  qed
qed

lemma cycle_fails_ordering:
  assumes "is_cycle edges cyc"
  shows "\<exists>err. dependency_order nodes edges = Inl err"
proof (cases "\<exists>e\<in>set edges. e_source e \<notin> n_id ` set nodes \<or> e_target e \<notin> n_id ` set nodes")
  case True
  then show ?thesis by (simp add: dependency_order_def)
next
  case False
  have "set cyc \<subseteq> n_id ` set nodes"
  proof
    fix c assume "c \<in> set cyc"
    then obtain e where "e \<in> set edges" "e_target e = c"
      using cycle_predecessor[OF assms] by blast
    then show "c \<in> n_id ` set nodes" using False by auto
  qed
  moreover have "set cyc \<noteq> {}" using assms by (simp add: is_cycle_def)
  ultimately have "kahn nodes edges = None"
    using kahn_stuck[of "set cyc" nodes edges] cycle_predecessor[OF assms] by blast
  then show ?thesis using False by (simp add: dependency_order_def)
qed

lemma reach_fuel_mono: "reach_fuel k es a m \<Longrightarrow> reach_fuel (Suc k) es a m"
proof (induction k arbitrary: m)
  case 0
  then show ?case by simp
next
  case (Suc k)
  then show ?case by (simp only: reach_fuel.simps) blast
qed

lemma reach_fuel_le:
  assumes "reach_fuel k es a m" and "k \<le> k'"
  shows "reach_fuel k' es a m"
proof -
  obtain d where d: "k' = k + d" using assms(2) le_Suc_ex by blast
  have "reach_fuel (k + d) es a m"
  proof (induction d)
    case 0
    show ?case using assms(1) by simp
  next
    case (Suc d)
    then show ?case using reach_fuel_mono[of "k + d" es a m] by (simp del: reach_fuel.simps)
  qed
  then show ?thesis using d by simp
qed

text \<open>
  A node first reached with fuel \<open>k + 1\<close> comes with \<open>k\<close> edge targets reached no later.
\<close>

lemma reach_fuel_targets:
  "reach_fuel (Suc k) es a m \<Longrightarrow> \<not> reach_fuel k es a m \<Longrightarrow>
     \<exists>T. T \<subseteq> e_target ` set es \<and> card T = k \<and> (\<forall>t\<in>T. reach_fuel (Suc k) es a t)"
proof (induction k arbitrary: m)
  case 0
  show ?case by (rule exI[of _ "{}"]) simp
next
  case (Suc j)
  have ma: "m \<noteq> a" using Suc.prems(1) by simp
  have nr: "\<not> is_root es m"
  proof
    assume "is_root es m"
    then have "reach_fuel (Suc 0) es a m" using ma by simp
    then have "reach_fuel (Suc j) es a m" by (rule reach_fuel_le) simp
    then show False using Suc.prems(2) by simp
  qed
  then obtain e where e: "e \<in> set es" "e_target e = m" "reach_fuel (Suc j) es a (e_source e)"
    using Suc.prems(1) by auto
  have "\<not> reach_fuel j es a (e_source e)"
  proof
    assume "reach_fuel j es a (e_source e)"
    then have "reach_fuel (Suc j) es a m" using e ma by auto
    then show False using Suc.prems(2) by simp
  qed
  from Suc.IH[OF e(3) this] obtain T where T: "T \<subseteq> e_target ` set es" "card T = j"
    "\<forall>t\<in>T. reach_fuel (Suc j) es a t" by blast
  have fin: "finite T" using T(1) by (meson finite_imageI finite_set finite_subset)
  have "m \<notin> T" using T(3) Suc.prems(2) by blast
  then have c: "card (insert m T) = Suc j" using fin T(2) by simp
  have s: "insert m T \<subseteq> e_target ` set es" using T(1) e by auto
  have r: "\<forall>t\<in>insert m T. reach_fuel (Suc (Suc j)) es a t"
    using T(3) Suc.prems(1) reach_fuel_mono by blast
  show ?case using c s r by blast
qed

lemma reach_fuel_complete:
  assumes "reach_fuel k es a m"
  shows "reach_avoiding es a m"
proof (rule ccontr)
  assume n: "\<not> reach_avoiding es a m"
  define d where "d = (LEAST i. reach_fuel i es a m)"
  have rd: "reach_fuel d es a m" unfolding d_def using assms by (rule LeastI)
  have least: "\<And>i. reach_fuel i es a m \<Longrightarrow> d \<le> i" unfolding d_def by (rule Least_le)
  have "\<not> d \<le> Suc (length es)"
    using n rd reach_fuel_le[of d es a m "Suc (length es)"] unfolding reach_avoiding_def by blast
  then obtain j where j: "d = Suc j" "length es < j"
    by (cases d) auto
  have "\<not> reach_fuel j es a m" using least[of j] j by auto
  from reach_fuel_targets[OF rd[unfolded j(1)] this] obtain T where
    T: "T \<subseteq> e_target ` set es" "card T = j" by blast
  have "card T \<le> card (e_target ` set es)"
    using T(1) by (simp add: card_mono)
  also have "\<dots> \<le> length es"
    by (meson card_image_le card_length finite_set le_trans)
  finally show False using T(2) j(2) by simp
qed

lemma kahn_mset: "kahn ns es = Some order \<Longrightarrow> mset order = mset ns"
proof (induction ns es arbitrary: order rule: kahn.induct)
  case (1 ns es)
  show ?case
  proof (cases "ns = []")
    case True
    then show ?thesis using "1.prems" by (simp add: kahn.simps)
  next
    case False
    then obtain n where f: "find (\<lambda>n. in_degree es n = 0) ns = Some n"
      using "1.prems" by (cases "find (\<lambda>n. in_degree es n = 0) ns") (auto simp: kahn.simps)
    then obtain rest where r: "kahn (remove1 n ns) (filter (\<lambda>e. e_source e \<noteq> n_id n) es) = Some rest"
      "order = n # rest"
      using "1.prems" False by (auto simp: kahn.simps)
    have n: "n \<in> set ns" using f by (auto simp: find_Some_iff)
    have "mset rest = mset (remove1 n ns)"
      using "1.IH"[OF False f r(1)] .
    then show ?thesis using r(2) n by simp
  qed
qed

lemma foldl_invariant:
  assumes "P st" and "\<And>st x. P st \<Longrightarrow> P (f st x)"
  shows "P (foldl f st xs)"
  using assms(1) by (induction xs arbitrary: st) (simp_all add: assms(2))

lemma run_node_log_ids:
  "map g_nodeId (node_logs (run_node E trig edges st n)) = map g_nodeId (node_logs st) @ [n_id n]"
  by (simp add: run_node_def Let_def)

lemma run_all_log_ids:
  "map g_nodeId (node_logs (foldl (run_node E trig edges) st order)) =
     map g_nodeId (node_logs st) @ map n_id order"
  by (induction order arbitrary: st) (simp_all add: run_node_log_ids)

lemma should_run_reaches:
  assumes inv: "\<forall>l\<in>set lgs. g_status l \<noteq> NodeSkipped \<longrightarrow> g_nodeId l \<noteq> a \<longrightarrow>
                   (\<exists>k. reach_fuel k edges a (g_nodeId l))"
    and nosucc: "\<forall>l\<in>set lgs. \<not> (g_nodeId l = a \<and> g_status l = NodeSuccess)"
    and run: "should_run edges lgs n" and na: "n_id n \<noteq> a"
  shows "\<exists>k. reach_fuel k edges a (n_id n)"
proof (cases "filter (\<lambda>e. e_target e = n_id n) edges = []")
  case True
  then have "is_root edges (n_id n)"
    by (auto simp: is_root_def filter_empty_conv)
  then have "reach_fuel (Suc 0) edges a (n_id n)" using na by simp
  then show ?thesis by blast
next
  case False
  then obtain e where e: "e \<in> set edges" "e_target e = n_id n" "edge_carries lgs e"
    using run by (auto simp: should_run_def Let_def)
  then obtain l where l: "find (\<lambda>l. g_nodeId l = e_source e) lgs = Some l" "g_status l = NodeSuccess"
    by (auto simp: edge_carries_def split: option.splits)
  then have lm: "l \<in> set lgs" "g_nodeId l = e_source e"
    by (auto simp: find_Some_iff)
  then have "e_source e \<noteq> a" using nosucc l(2) by auto
  then obtain k where "reach_fuel k edges a (e_source e)"
    using inv lm l(2) by fastforce
  then have "reach_fuel (Suc k) edges a (n_id n)" using e na by auto
  then show ?thesis by blast
qed

lemma run_node_ran_reaches:
  assumes "ran_reaches edges a st"
  shows "ran_reaches edges a (run_node E trig edges st n)"
  unfolding ran_reaches_def
proof (intro impI ballI)
  fix l
  assume nosucc': "\<forall>l\<in>set (node_logs (run_node E trig edges st n)).
                     \<not> (g_nodeId l = a \<and> g_status l = NodeSuccess)"
    and l: "l \<in> set (node_logs (run_node E trig edges st n))"
    and ns: "g_status l \<noteq> NodeSkipped" and na: "g_nodeId l \<noteq> a"
  have old: "set (node_logs st) \<subseteq> set (node_logs (run_node E trig edges st n))"
    by (auto simp: run_node_def Let_def)
  have nosucc: "\<forall>l\<in>set (node_logs st). \<not> (g_nodeId l = a \<and> g_status l = NodeSuccess)"
    using nosucc' old by blast
  have inv: "\<forall>l\<in>set (node_logs st). g_status l \<noteq> NodeSkipped \<longrightarrow> g_nodeId l \<noteq> a \<longrightarrow>
                   (\<exists>k. reach_fuel k edges a (g_nodeId l))"
    using assms nosucc unfolding ran_reaches_def by blast
  show "\<exists>k. reach_fuel k edges a (g_nodeId l)"
  proof (cases "l \<in> set (node_logs st)")
    case True
    then show ?thesis using inv ns na by blast
  next
    case False
    then have new: "g_nodeId l = n_id n" "should_run edges (node_logs st) n"
      using l ns by (auto simp: run_node_def Let_def split: if_splits)
    show ?thesis
      using should_run_reaches[OF inv nosucc new(2)] na new(1) by simp
  qed
qed

lemma foldl_invariant_set:
  assumes "P st" and "\<And>st x. x \<in> set xs \<Longrightarrow> P st \<Longrightarrow> P (f st x)"
  shows "P (foldl f st xs)"
  using assms
proof (induction xs arbitrary: st)
  case Nil
  then show ?case by simp
next
  case (Cons x xs)
  have "P (f st x)" using Cons.prems by simp
  then show ?case using Cons.IH[of "f st x"] Cons.prems(2) by simp
qed

lemma run_node_invoked_logged:
  assumes "invoked_logged E trig ns st" and "n \<in> set ns"
  shows "invoked_logged E trig ns (run_node E trig edges st n)"
  unfolding invoked_logged_def
proof
  fix c
  assume c: "c \<in> set (invoked (run_node E trig edges st n))"
  let ?st' = "run_node E trig edges st n"
  have old: "set (node_logs st) \<subseteq> set (node_logs ?st')"
    by (auto simp: run_node_def Let_def)
  show "(\<exists>n\<in>set ns. n_id n = v_nodeId c \<and> handler E n (v_input c) trig = v_outcome c) \<and>
        (\<exists>l\<in>set (node_logs ?st'). g_nodeId l = v_nodeId c \<and>
           g_status l = (if step_failed (v_outcome c) then NodeError else NodeSuccess))"
  proof (cases "c \<in> set (invoked st)")
    case True
    then show ?thesis using assms(1) old unfolding invoked_logged_def by blast
  next
    case False
    define resolved where "resolved = JObj (resolve_config (other_text E) (outputs st) (n_config n))"
    have new: "should_run edges (node_logs st) n" "v_nodeId c = n_id n" "v_input c = resolved"
      "v_outcome c = handler E n resolved trig"
      using c False by (auto simp: run_node_def Let_def resolved_def split: if_splits)
    have "\<exists>l\<in>set (node_logs ?st'). g_nodeId l = n_id n \<and>
            g_status l = (if step_failed (handler E n resolved trig) then NodeError else NodeSuccess)"
      using new(1) by (simp add: run_node_def Let_def resolved_def)
    then show ?thesis using new assms(2) by auto
  qed
qed

lemma execute_ordered:
  assumes "dependency_order nodes edges = Inr order"
  shows "x_logs (execute E nodes edges trig) =
           node_logs (foldl (run_node E trig edges) initial_state order) \<and>
         x_invoked (execute E nodes edges trig) =
           invoked (foldl (run_node E trig edges) initial_state order) \<and>
         x_status (execute E nodes edges trig) =
           (if \<exists>l\<in>set (node_logs (foldl (run_node E trig edges) initial_state order)).
                 g_status l = NodeError then ExecError else ExecSuccess)"
  using assms by (simp add: execute_def Let_def initial_state_def)

lemma find_distinct_key:
  assumes "distinct (map f xs)" and "find (\<lambda>x. f x = k) xs = Some y" and "x \<in> set xs" and "f x = k"
  shows "x = y"
proof -
  have "y \<in> set xs" "f y = k" using assms(2) by (auto simp: find_Some_iff)
  then show ?thesis using assms(1,3,4) by (auto simp: distinct_map inj_on_def)
qed

lemma error_node_skips_dependents:
  assumes ids: "distinct (map n_id nodes)"
    and failed: "status_of (execute E nodes edges trig) a = Some NodeError"
    and node: "m \<in> n_id ` set nodes"
    and only: "only_through edges a m"
  shows "status_of (execute E nodes edges trig) m = Some NodeSkipped \<and>
         m \<notin> v_nodeId ` set (x_invoked (execute E nodes edges trig)) \<and>
         x_status (execute E nodes edges trig) = ExecError"
proof -
  obtain order where ord: "dependency_order nodes edges = Inr order"
    using failed by (cases "dependency_order nodes edges") (auto simp: execute_def status_of_def)
  define st where "st = foldl (run_node E trig edges) initial_state order"
  have res: "x_logs (execute E nodes edges trig) = node_logs st"
    "x_invoked (execute E nodes edges trig) = invoked st"
    "x_status (execute E nodes edges trig) =
       (if \<exists>l\<in>set (node_logs st). g_status l = NodeError then ExecError else ExecSuccess)"
    using execute_ordered[OF ord, of E trig] by (simp_all add: st_def)
  have k: "kahn nodes edges = Some order"
    using ord by (auto simp: dependency_order_def split: if_splits option.splits)
  have ms: "mset order = mset nodes" using kahn_mset[OF k] .
  have "mset (map n_id order) = mset (map n_id nodes)" using ms by (metis mset_map)
  then have dord: "distinct (map n_id order)" and sord: "set (map n_id order) = set (map n_id nodes)"
    using ids mset_eq_imp_distinct_iff mset_eq_setD by blast+
  have lid: "map g_nodeId (node_logs st) = map n_id order"
    using run_all_log_ids[of E trig edges initial_state order]
    by (simp add: st_def initial_state_def)
  have dlog: "distinct (map g_nodeId (node_logs st))" using dord lid by simp
  obtain la where la: "find (\<lambda>l. g_nodeId l = a) (node_logs st) = Some la" "g_status la = NodeError"
    using failed res(1) by (auto simp: status_of_def)
  have nosucc: "\<forall>l\<in>set (node_logs st). \<not> (g_nodeId l = a \<and> g_status l = NodeSuccess)"
    using find_distinct_key[OF dlog la(1)] la(2) by auto
  have "ran_reaches edges a initial_state"
    by (simp add: ran_reaches_def initial_state_def)
  then have "ran_reaches edges a st"
    unfolding st_def
    by (rule foldl_invariant[where P = "ran_reaches edges a"]) (rule run_node_ran_reaches)
  then have reach: "\<forall>l\<in>set (node_logs st). g_status l \<noteq> NodeSkipped \<longrightarrow> g_nodeId l \<noteq> a \<longrightarrow>
          (\<exists>k. reach_fuel k edges a (g_nodeId l))"
    using nosucc unfolding ran_reaches_def by blast
  have skipped: "g_status l = NodeSkipped" if h: "l \<in> set (node_logs st)" "g_nodeId l = m" for l
  proof (rule ccontr)
    assume "g_status l \<noteq> NodeSkipped"
    moreover have "g_nodeId l \<noteq> a" using h(2) only by (simp add: only_through_def)
    ultimately have "\<exists>k. reach_fuel k edges a (g_nodeId l)"
      using reach h(1) by blast
    then obtain k where "reach_fuel k edges a m"
      using h(2) by blast
    then have "reach_avoiding edges a m" by (rule reach_fuel_complete)
    then show False using only by (simp add: only_through_def)
  qed
  have "m \<in> set (map g_nodeId (node_logs st))" using node sord lid by simp
  then obtain lm where lm: "find (\<lambda>l. g_nodeId l = m) (node_logs st) = Some lm"
    by (cases "find (\<lambda>l. g_nodeId l = m) (node_logs st)") (auto simp: find_None_iff)
  then have "lm \<in> set (node_logs st)" "g_nodeId lm = m" by (auto simp: find_Some_iff)
  then have s1: "status_of (execute E nodes edges trig) m = Some NodeSkipped"
    using skipped lm res(1) by (simp add: status_of_def)
  have "invoked_logged E trig order (foldl (run_node E trig edges) initial_state order)"
  proof (rule foldl_invariant_set[where P = "invoked_logged E trig order"])
    show "invoked_logged E trig order initial_state"
      by (simp add: invoked_logged_def initial_state_def)
  next
    fix st0 x
    assume "x \<in> set order" "invoked_logged E trig order st0"
    then show "invoked_logged E trig order (run_node E trig edges st0 x)"
      using run_node_invoked_logged by blast
  qed
  then have il: "invoked_logged E trig order st" by (simp add: st_def)
  have s2: "m \<notin> v_nodeId ` set (x_invoked (execute E nodes edges trig))"
  proof
    assume "m \<in> v_nodeId ` set (x_invoked (execute E nodes edges trig))"
    then obtain c where c: "c \<in> set (invoked st)" "v_nodeId c = m" using res(2) by auto
    then obtain l where "l \<in> set (node_logs st)" "g_nodeId l = m"
      "g_status l = (if step_failed (v_outcome c) then NodeError else NodeSuccess)"
      using il unfolding invoked_logged_def by blast
    then have "l \<in> set (node_logs st)" "g_nodeId l = m" "g_status l \<noteq> NodeSkipped"
      by simp_all
    then show False using skipped by blast
  qed
  have "la \<in> set (node_logs st)" using la(1) by (auto simp: find_Some_iff)
  then have s3: "x_status (execute E nodes edges trig) = ExecError"
    using la(2) res(3) by auto
  show ?thesis using s1 s2 s3 by blast
qed

text \<open>
  Claim C1, on the executor modelled from the specification. In a graph with unique node
  ids, if the handler of node \<open>a\<close> was invoked and returned a result whose \<open>success\<close> field
  is \<open>false\<close>, then \<open>a\<close> is recorded \<open>error\<close>, every node reachable only through \<open>a\<close> is
  recorded \<open>skipped\<close> and its handler is never invoked, and the terminal status is \<open>error\<close>.
  The invocation is one of the handler of the run: its outcome is what the handler gives for
  that node and input.
\<close>

theorem failed_node_skips_dependents:
  assumes ids: "distinct (map n_id nodes)"
    and called: "c \<in> set (x_invoked (execute E nodes edges trig))" "v_nodeId c = a"
    and failed: "v_outcome c = Inr (JObj kvs)" "map_of kvs ''success'' = Some (JBool False)"
    and node: "m \<in> n_id ` set nodes"
    and only: "only_through edges a m"
  shows "(\<exists>n\<in>set nodes. n_id n = a \<and> handler E n (v_input c) trig = v_outcome c) \<and>
         status_of (execute E nodes edges trig) a = Some NodeError \<and>
         status_of (execute E nodes edges trig) m = Some NodeSkipped \<and>
         m \<notin> v_nodeId ` set (x_invoked (execute E nodes edges trig)) \<and>
         x_status (execute E nodes edges trig) = ExecError"
proof -
  obtain order where ord: "dependency_order nodes edges = Inr order"
    using called(1) by (cases "dependency_order nodes edges") (auto simp: execute_def)
  define st where "st = foldl (run_node E trig edges) initial_state order"
  have res: "x_logs (execute E nodes edges trig) = node_logs st"
    "x_invoked (execute E nodes edges trig) = invoked st"
    using execute_ordered[OF ord, of E trig] by (simp_all add: st_def)
  have k: "kahn nodes edges = Some order"
    using ord by (auto simp: dependency_order_def split: if_splits option.splits)
  have ms: "mset order = mset nodes" using kahn_mset[OF k] .
  then have so: "set order = set nodes" by (rule mset_eq_setD)
  have "mset (map n_id order) = mset (map n_id nodes)" using ms by (metis mset_map)
  then have dord: "distinct (map n_id order)"
    using ids mset_eq_imp_distinct_iff by blast
  have lid: "map g_nodeId (node_logs st) = map n_id order"
    using run_all_log_ids[of E trig edges initial_state order]
    by (simp add: st_def initial_state_def)
  have dlog: "distinct (map g_nodeId (node_logs st))" using dord lid by simp
  have "invoked_logged E trig order (foldl (run_node E trig edges) initial_state order)"
  proof (rule foldl_invariant_set[where P = "invoked_logged E trig order"])
    show "invoked_logged E trig order initial_state"
      by (simp add: invoked_logged_def initial_state_def)
  next
    fix st0 x
    assume "x \<in> set order" "invoked_logged E trig order st0"
    then show "invoked_logged E trig order (run_node E trig edges st0 x)"
      using run_node_invoked_logged by blast
  qed
  then have il: "invoked_logged E trig order st" by (simp add: st_def)
  have cin: "c \<in> set (invoked st)" using called(1) res(2) by simp
  have sf: "step_failed (v_outcome c)" using failed by simp
  obtain n where n: "n \<in> set order" "n_id n = a" "handler E n (v_input c) trig = v_outcome c"
    using il cin called(2) unfolding invoked_logged_def by blast
  obtain l where l: "l \<in> set (node_logs st)" "g_nodeId l = a" "g_status l = NodeError"
    using il cin called(2) sf unfolding invoked_logged_def by fastforce
  obtain la where la: "find (\<lambda>l. g_nodeId l = a) (node_logs st) = Some la"
    using l(1,2) by (cases "find (\<lambda>l. g_nodeId l = a) (node_logs st)") (auto simp: find_None_iff)
  have "l = la" using find_distinct_key[OF dlog la l(1) l(2)] .
  then have sa: "status_of (execute E nodes edges trig) a = Some NodeError"
    using la l(3) res(1) by (simp add: status_of_def)
  have h: "\<exists>n\<in>set nodes. n_id n = a \<and> handler E n (v_input c) trig = v_outcome c"
    using n so by blast
  show ?thesis
    using h sa error_node_skips_dependents[OF ids sa node only] by blast
qed

text \<open>
  \<open>Trigger -> Fetch -> Notify\<close> with the handler of \<open>Fetch\<close> returning
  \<open>{success: false, error: "timeout"}\<close>: \<open>Fetch\<close> is recorded \<open>error\<close>, \<open>Notify\<close> is
  skipped and not invoked, the execution ends in \<open>error\<close> with the message \<open>timeout\<close>.
\<close>

theorem failed_node_skips_dependents_witness:
  "distinct (map n_id chain_nodes) \<and>
   fetch_call \<in> set (x_invoked (execute env_fetch_fails chain_nodes chain_edges trigger_input)) \<and>
   v_nodeId fetch_call = ''f'' \<and>
   v_outcome fetch_call = Inr (JObj [(''success'', JBool False), (''error'', JStr ''timeout'')]) \<and>
   ''n'' \<in> n_id ` set chain_nodes \<and>
   only_through chain_edges ''f'' ''n'' \<and>
   status_of (execute env_fetch_fails chain_nodes chain_edges trigger_input) ''f'' = Some NodeError \<and>
   status_of (execute env_fetch_fails chain_nodes chain_edges trigger_input) ''n'' = Some NodeSkipped \<and>
   ''n'' \<notin> v_nodeId ` set (x_invoked (execute env_fetch_fails chain_nodes chain_edges trigger_input)) \<and>
   x_status (execute env_fetch_fails chain_nodes chain_edges trigger_input) = ExecError \<and>
   x_error (execute env_fetch_fails chain_nodes chain_edges trigger_input) = Some ''timeout''"
proof -
  have d: "distinct (map n_id chain_nodes)"
    by code_simp
  have c: "fetch_call \<in> set (x_invoked (execute env_fetch_fails chain_nodes chain_edges trigger_input))"
    by code_simp
  have i: "v_nodeId fetch_call = ''f''"
    by (simp add: fetch_call_def)
  have o: "v_outcome fetch_call = Inr (JObj [(''success'', JBool False), (''error'', JStr ''timeout'')])"
    by (simp add: fetch_call_def)
  have s: "map_of [(''success'', JBool False), (''error'', JStr ''timeout'')] ''success'' = Some (JBool False)"
    by simp
  have n: "''n'' \<in> n_id ` set chain_nodes"
    by code_simp
  have p: "only_through chain_edges ''f'' ''n''"
    by code_simp
  have e: "x_error (execute env_fetch_fails chain_nodes chain_edges trigger_input) = Some ''timeout''"
    by code_simp
  show ?thesis
    using d c i o n p e failed_node_skips_dependents[OF d c i o s n p] by simp
qed

text \<open>
  Claim C3, on the executor modelled from the specification. If the edges contain a cycle
  (reachable from a trigger node or not), dependency ordering fails with a structural
  error, and the execution ends in \<open>error\<close> with no node log written and no handler
  invoked.
\<close>

theorem cycle_fails_before_any_node:
  assumes "is_cycle edges cyc"
  shows "(\<exists>err. dependency_order nodes edges = Inl err) \<and>
         x_status (execute E nodes edges trig) = ExecError \<and>
         x_logs (execute E nodes edges trig) = [] \<and>
         x_invoked (execute E nodes edges trig) = []"
proof -
  obtain err where "dependency_order nodes edges = Inl err"
    using cycle_fails_ordering[OF assms] by blast
  then show ?thesis by (simp add: execute_def)
qed

text \<open>
  The chain with an edge back from \<open>Notify\<close> to \<open>Fetch\<close>: a cycle is detected.
\<close>

theorem cycle_fails_before_any_node_witness:
  "is_cycle (chain_edges @ [edge ''n'' ''f'']) [''f'', ''n''] \<and>
   dependency_order chain_nodes (chain_edges @ [edge ''n'' ''f'']) = Inl CycleDetected \<and>
   x_status (execute env_fetch_fails chain_nodes (chain_edges @ [edge ''n'' ''f'']) trigger_input) = ExecError \<and>
   x_logs (execute env_fetch_fails chain_nodes (chain_edges @ [edge ''n'' ''f'']) trigger_input) = [] \<and>
   x_invoked (execute env_fetch_fails chain_nodes (chain_edges @ [edge ''n'' ''f'']) trigger_input) = []"
proof -
  have c: "is_cycle (chain_edges @ [edge ''n'' ''f'']) [''f'', ''n'']"
    by code_simp
  have o: "dependency_order chain_nodes (chain_edges @ [edge ''n'' ''f'']) = Inl CycleDetected"
    by code_simp
  show ?thesis
    using c o cycle_fails_before_any_node[OF c, of chain_nodes env_fetch_fails trigger_input] by simp
qed

lemma split_on_dotted:
  assumes "CHR ''.'' \<notin> set name" and "\<forall>s\<in>set path. CHR ''.'' \<notin> set s"
  shows "split_on CHR ''.'' (name @ dotted path) = name # path"
  using assms
proof (induction path arbitrary: name)
  case Nil
  then show ?case by (simp add: dotted_def split_on_no_sep)
next
  case (Cons s path)
  have "split_on CHR ''.'' (s @ dotted path) = s # path"
    using Cons.IH[of s] Cons.prems(2) by simp
  then show ?case
    using split_on_append[OF Cons.prems(1), of "s @ dotted path"] by (simp add: dotted_def)
qed

lemma find_close_found:
  "CHR ''}'' \<notin> set r \<Longrightarrow> find_close (r @ ''}}'' @ post) = Some (r, post)"
proof (induction r)
  case Nil
  show ?case by simp
next
  case (Cons c r)
  obtain d cs where dc: "r @ ''}}'' @ post = d # cs" by (cases "r @ ''}}'' @ post") auto
  have "find_close (c # d # cs) = map_option (\<lambda>(r, rest). (c # r, rest)) (find_close (d # cs))"
    using Cons.prems by auto
  then show ?case using Cons dc by simp
qed

lemma scan_literal:
  "CHR ''{'' \<notin> set pre \<Longrightarrow> scan (pre @ rest) = map (\<lambda>c. Literal [c]) pre @ scan rest"
proof (induction pre)
  case Nil
  show ?case by simp
next
  case (Cons c pre)
  show ?case
  proof (cases "pre @ rest")
    case Nil
    then show ?thesis by simp
  next
    case (Cons d cs)
    then have "scan ((c # pre) @ rest) = Literal [c] # scan (pre @ rest)"
      using Cons.prems by auto
    then show ?thesis using Cons.IH Cons.prems by simp
  qed
qed

lemma scan_reference:
  "CHR ''}'' \<notin> set r \<Longrightarrow> scan (''{{'' @ r @ ''}}'' @ post) = Reference r # scan post"
  using find_close_found[of r post] by simp

lemma literal_text:
  "concat (map (segment_text other outs) (map (\<lambda>c. Literal [c]) s)) = s"
  by (induction s) simp_all

lemma scan_template:
  assumes "CHR ''}'' \<notin> set r" and "CHR ''{'' \<notin> set pre" and "CHR ''{'' \<notin> set post"
  shows "scan (pre @ ''{{'' @ r @ ''}}'' @ post) =
           map (\<lambda>c. Literal [c]) pre @ Reference r # map (\<lambda>c. Literal [c]) post"
  using scan_literal[OF assms(2), of "''{{'' @ r @ ''}}'' @ post"]
        scan_reference[OF assms(1), of post] scan_literal[OF assms(3), of "[]"]
  by simp

text \<open>
  Claim C2, on the interpolation engine modelled from the specification. For every mapping
  in which the reference \<open>name.path\<close> resolves to a value \<open>v\<close>: the template that is this
  reference alone yields \<open>v\<close> itself, and the template with text around the reference
  yields the string made of that text and the text of \<open>v\<close>.
\<close>

theorem interpolate_typed_or_text:
  assumes parts: "plain_part name" "\<forall>s\<in>set path. plain_part s"
    and out: "map_of outs name = Some out" and field: "get_path out path = Some v"
    and around: "CHR ''{'' \<notin> set pre" "CHR ''{'' \<notin> set post" "pre @ post \<noteq> []"
  shows "interpolate other outs (''{{'' @ reference_text name path @ ''}}'') = v \<and>
         interpolate other outs (pre @ ''{{'' @ reference_text name path @ ''}}'' @ post) =
           JStr (pre @ value_text other v @ post)"
proof -
  let ?r = "reference_text name path"
  have nc: "CHR ''}'' \<notin> set ?r"
    using parts by (auto simp: reference_text_def dotted_def plain_part_def)
  have sp: "split_on CHR ''.'' ?r = name # path"
    unfolding reference_text_def using parts by (intro split_on_dotted) (auto simp: plain_part_def)
  have res: "resolve_reference outs ?r = Some v"
    using sp out field by (simp add: resolve_reference_def)
  have s1: "scan (''{{'' @ ?r @ ''}}'') = [Reference ?r]"
    using scan_reference[OF nc, of "[]"] by simp
  have a: "interpolate other outs (''{{'' @ ?r @ ''}}'') = v"
    unfolding interpolate_def s1 using res by simp
  have s2: "scan (pre @ ''{{'' @ ?r @ ''}}'' @ post) =
              map (\<lambda>c. Literal [c]) pre @ Reference ?r # map (\<lambda>c. Literal [c]) post"
    using scan_template[OF nc around(1) around(2)] .
  have joined: "concat (map (segment_text other outs)
                (map (\<lambda>c. Literal [c]) pre @ Reference ?r # map (\<lambda>c. Literal [c]) post)) =
             pre @ value_text other v @ post"
    using res literal_text[of other outs pre] literal_text[of other outs post] by simp
  have b: "interpolate other outs (pre @ ''{{'' @ ?r @ ''}}'' @ post) =
             JStr (pre @ value_text other v @ post)"
  proof (cases pre)
    case Nil
    then obtain c post' where p: "post = c # post'" using around(3) by (cases post) auto
    show ?thesis
      unfolding interpolate_def s2 using joined Nil p by simp
  next
    case (Cons c pre')
    show ?thesis
      unfolding interpolate_def s2 using joined Cons by simp
  qed
  show ?thesis using a b by blast
qed

text \<open>
  \<open>{{A.value}}\<close> against \<open>{A: {value: 42}}\<close> is the number 42; \<open>x={{A.value}}\<close> is the
  string \<open>x=42\<close>.
\<close>

theorem interpolate_typed_or_text_witness:
  "plain_part ''A'' \<and> plain_part ''value'' \<and>
   map_of outputs_a ''A'' = Some (JObj [(''value'', JNum 42)]) \<and>
   get_path (JObj [(''value'', JNum 42)]) [''value''] = Some (JNum 42) \<and>
   interpolate (\<lambda>v. []) outputs_a ''{{A.value}}'' = JNum 42 \<and>
   interpolate (\<lambda>v. []) outputs_a ''x={{A.value}}'' = JStr ''x=42''"
proof -
  have p: "plain_part ''A''" "\<forall>s\<in>set [''value'']. plain_part s"
    by (simp_all add: plain_part_def)
  have o: "map_of outputs_a ''A'' = Some (JObj [(''value'', JNum 42)])"
    by (simp add: outputs_a_def)
  have g: "get_path (JObj [(''value'', JNum 42)]) [''value''] = Some (JNum 42)"
    by simp
  have t: "CHR ''{'' \<notin> set ''x=''" "CHR ''{'' \<notin> set ''''" "''x='' @ '''' \<noteq> []"
    by simp_all
  have n: "string_of_int 42 = ''42''"
    by (simp add: string_of_int_def string_of_nat.simps digit_char_def)
  show ?thesis
    using p o g interpolate_typed_or_text[OF p o g t, of "\<lambda>v. []"]
    by (simp add: reference_text_def dotted_def n)
qed

end
